theory Spec2Isabelle
  imports Complex_Main
begin

section \<open>Numbers\<close>

text \<open>
  The physics loop of \<^verbatim>\<open>src/components/SimulationCanvas.tsx\<close> (first module of the file,
  the multi-hand ticker callback) computes on JavaScript numbers and stores them in
  \<^verbatim>\<open>Float32Array\<close>s. A number is modelled as an exact real, or one of the three
  non-finite values. The arithmetic of the local variables (doubles) is exact on finite
  values: the rounding of the double operations, the overflow of a double and the sign
  of zero are outside the model. A store into a \<^verbatim>\<open>Float32Array\<close> rounds the stored
  value to the nearest 32-bit float (\<open>fround\<close> below), as the source does at every
  assignment to \<^verbatim>\<open>p.x[i]\<close>, \<^verbatim>\<open>p.y[i]\<close>, \<^verbatim>\<open>p.vx[i]\<close> and \<^verbatim>\<open>p.vy[i]\<close>. The
  non-finite cases follow IEEE 754: every comparison with \<open>NaN\<close> is false,
  \<open>Infinity - Infinity\<close> and \<open>0 * Infinity\<close> are \<open>NaN\<close>.
\<close>

datatype num = Fin real | PInf | NInf | NaN

fun nsign :: "num \<Rightarrow> int" where
  "nsign (Fin r) = (if r < 0 then - 1 else if r = 0 then 0 else 1)"
| "nsign PInf = 1"
| "nsign NInf = - 1"
| "nsign NaN = 0"

instantiation num :: "{plus, minus, uminus, times, inverse, ord}"
begin

fun plus_num :: "num \<Rightarrow> num \<Rightarrow> num" where
  "plus_num (Fin a) (Fin b) = Fin (a + b)"
| "plus_num NaN _ = NaN"
| "plus_num _ NaN = NaN"
| "plus_num PInf NInf = NaN"
| "plus_num NInf PInf = NaN"
| "plus_num PInf _ = PInf"
| "plus_num _ PInf = PInf"
| "plus_num NInf _ = NInf"
| "plus_num _ NInf = NInf"

fun uminus_num :: "num \<Rightarrow> num" where
  "uminus_num (Fin a) = Fin (- a)"
| "uminus_num PInf = NInf"
| "uminus_num NInf = PInf"
| "uminus_num NaN = NaN"

definition minus_num :: "num \<Rightarrow> num \<Rightarrow> num" where
  "minus_num a b = a + (- b)"

fun times_num :: "num \<Rightarrow> num \<Rightarrow> num" where
  "times_num (Fin a) (Fin b) = Fin (a * b)"
| "times_num NaN _ = NaN"
| "times_num _ NaN = NaN"
| "times_num a b =
     (if nsign a * nsign b = 0 then NaN else if 0 < nsign a * nsign b then PInf else NInf)"

fun divide_num :: "num \<Rightarrow> num \<Rightarrow> num" where
  "divide_num (Fin a) (Fin b) =
     (if b \<noteq> 0 then Fin (a / b) else if a = 0 then NaN else if 0 < a then PInf else NInf)"
| "divide_num NaN _ = NaN"
| "divide_num _ NaN = NaN"
| "divide_num (Fin a) _ = Fin 0"
| "divide_num PInf (Fin b) = (if b < 0 then NInf else PInf)"
| "divide_num NInf (Fin b) = (if b < 0 then PInf else NInf)"
| "divide_num _ _ = NaN"

definition inverse_num :: "num \<Rightarrow> num" where
  "inverse_num a = divide (Fin 1) a"

fun less_num :: "num \<Rightarrow> num \<Rightarrow> bool" where
  "less_num (Fin a) (Fin b) = (a < b)"
| "less_num (Fin a) PInf = True"
| "less_num NInf (Fin b) = True"
| "less_num NInf PInf = True"
| "less_num _ _ = False"

definition less_eq_num :: "num \<Rightarrow> num \<Rightarrow> bool" where
  "less_eq_num a b = (a < b \<or> (a = b \<and> a \<noteq> NaN))"

instance ..

end

text \<open>\<^verbatim>\<open>Number.isFinite\<close>, \<^verbatim>\<open>Math.sqrt\<close>, the value of \<^verbatim>\<open>a || b\<close> on numbers
  (zero and \<open>NaN\<close> are falsy) and \<^verbatim>\<open>a | 0\<close> (ToInt32: truncate towards zero, wrap
  modulo \<open>2^32\<close>; the non-finite values give 0).\<close>

fun isFinite :: "num \<Rightarrow> bool" where
  "isFinite (Fin r) = True"
| "isFinite _ = False"

fun nsqrt :: "num \<Rightarrow> num" where
  "nsqrt (Fin r) = (if r < 0 then NaN else Fin (sqrt r))"
| "nsqrt PInf = PInf"
| "nsqrt NInf = NaN"
| "nsqrt NaN = NaN"

fun js_or :: "num \<Rightarrow> num \<Rightarrow> num" where
  "js_or (Fin r) b = (if r = 0 then b else Fin r)"
| "js_or NaN b = b"
| "js_or a b = a"

definition trunc :: "real \<Rightarrow> int" where
  "trunc r = (if 0 \<le> r then \<lfloor>r\<rfloor> else \<lceil>r\<rceil>)"

definition wrap32 :: "int \<Rightarrow> int" where
  "wrap32 k = (k + 2 ^ 31) mod 2 ^ 32 - 2 ^ 31"

fun to_int32 :: "num \<Rightarrow> int" where
  "to_int32 (Fin r) = wrap32 (trunc r)"
| "to_int32 _ = 0"

text \<open>
  The conversion of a number to a 32-bit float (\<^verbatim>\<open>Math.fround\<close>, applied by every store
  into a \<^verbatim>\<open>Float32Array\<close>): round to the nearest representable value, ties to the
  even significand. The representable values around \<open>a\<close> are the multiples of
  \<open>ulp32 a\<close>: \<open>2^-149\<close> for \<open>|a| < 2^-125\<close> (the subnormal numbers and the first
  binade), doubling with every binade up to \<open>2^104\<close> for \<open>2^127 \<le> |a|\<close>; \<open>ulp_search\<close>
  walks up the 254 binades. A result of magnitude \<open>2^128\<close> is beyond the largest float
  and becomes an infinity.
\<close>

definition rne :: "real \<Rightarrow> int" where
  "rne q = (let f = \<lfloor>q\<rfloor>; r = q - of_int f
            in if r < 1 / 2 then f else if 1 / 2 < r then f + 1
               else if even f then f else f + 1)"

fun ulp_search :: "nat \<Rightarrow> real \<Rightarrow> real \<Rightarrow> real" where
  "ulp_search 0 u a = u"
| "ulp_search (Suc n) u a = (if a < u * 2 ^ 24 then u else ulp_search n (2 * u) a)"

definition ulp32 :: "real \<Rightarrow> real" where
  "ulp32 a = ulp_search 253 (1 / 2 ^ 149) \<bar>a\<bar>"

definition round32 :: "real \<Rightarrow> real" where
  "round32 a = of_int (rne (a / ulp32 a)) * ulp32 a"

fun fround :: "num \<Rightarrow> num" where
  "fround (Fin a) =
     (if 2 ^ 128 \<le> round32 a then PInf else if round32 a \<le> - (2 ^ 128) then NInf
      else Fin (round32 a))"
| "fround PInf = PInf"
| "fround NInf = NInf"
| "fround NaN = NaN"

text \<open>A value that a \<^verbatim>\<open>Float32Array\<close> can hold, and the real value of a finite number.\<close>

definition is_float32 :: "num \<Rightarrow> bool" where
  "is_float32 a = (fround a = a)"

fun val :: "num \<Rightarrow> real" where
  "val (Fin r) = r"
| "val _ = 0"

text \<open>The binade of \<open>a\<close> is number \<open>k\<close>, counted from the lowest: the spacing there is
  \<open>2^k * 2^-149\<close>, and \<open>a\<close> lies between \<open>2^23\<close> and \<open>2^24\<close> times the spacing, unless
  the binade is the first or the last one.\<close>

definition binade :: "real \<Rightarrow> nat \<Rightarrow> bool" where
  "binade a k \<longleftrightarrow>
     k \<le> 253 \<and> ulp32 a = 2 ^ k / 2 ^ 149
     \<and> (k < 253 \<longrightarrow> \<bar>a\<bar> < ulp32 a * 2 ^ 24) \<and> (0 < k \<longrightarrow> ulp32 a * 2 ^ 23 \<le> \<bar>a\<bar>)"

section \<open>Data\<close>

text \<open>\<^verbatim>\<open>src/types.ts\<close>: the gesture enumeration and one hand record.\<close>

datatype HandGesture = NONE | OPEN_PALM | CLOSED_FIST

record HandData =
  hand_id :: string
  hand_x :: num
  hand_y :: num
  gesture :: HandGesture
  velocity_x :: num
  velocity_y :: num

text \<open>
  The arrays the ticker callback closes over: the five particle arrays of
  \<^verbatim>\<open>particlesRef.current\<close> and the two index arrays of the spatial grid. An element of an
  \<^verbatim>\<open>Int32Array\<close> is an \<open>int\<close>.
\<close>

record sim =
  px :: "num list"
  py :: "num list"
  pvx :: "num list"
  pvy :: "num list"
  pradius :: "num list"
  gridHead :: "int list"
  nextParticle :: "int list"

text \<open>
  What the callback reads besides the arrays: \<^verbatim>\<open>app.screen.width\<close> and
  \<^verbatim>\<open>app.screen.height\<close> (read at every tick), and \<open>gridW\<close>, \<open>gridH\<close> and
  \<open>particleCount\<close>, which are fixed when the effect is set up.
\<close>

record env =
  screenW :: num
  screenH :: num
  gridW :: int
  gridH :: int
  particleCount :: nat

text \<open>
  A typed array read out of range gives \<^verbatim>\<open>undefined\<close>, which is \<open>NaN\<close> in arithmetic;
  a write out of range is ignored. A write into a \<^verbatim>\<open>Float32Array\<close> (\<open>wr\<close>) stores the
  value rounded to a 32-bit float. An index read from an \<^verbatim>\<open>Int32Array\<close> is
  \<open>Some k\<close>, or \<open>None\<close> for \<^verbatim>\<open>undefined\<close>.
\<close>

definition rd :: "num list \<Rightarrow> int \<Rightarrow> num" where
  "rd xs k = (if 0 \<le> k \<and> k < int (length xs) then xs ! nat k else NaN)"

definition wr :: "num list \<Rightarrow> int \<Rightarrow> num \<Rightarrow> num list" where
  "wr xs k v = (if 0 \<le> k \<and> k < int (length xs) then xs[nat k := fround v] else xs)"

definition rdI :: "int list \<Rightarrow> int \<Rightarrow> int option" where
  "rdI xs k = (if 0 \<le> k \<and> k < int (length xs) then Some (xs ! nat k) else None)"

definition wrI :: "int list \<Rightarrow> int \<Rightarrow> int \<Rightarrow> int list" where
  "wrI xs k v = (if 0 \<le> k \<and> k < int (length xs) then xs[nat k := v] else xs)"

fun rdo :: "num list \<Rightarrow> int option \<Rightarrow> num" where
  "rdo xs (Some k) = rd xs k"
| "rdo xs None = NaN"

fun wro :: "num list \<Rightarrow> int option \<Rightarrow> num \<Rightarrow> num list" where
  "wro xs (Some k) v = wr xs k v"
| "wro xs None v = xs"

fun rdIo :: "int list \<Rightarrow> int option \<Rightarrow> int option" where
  "rdIo xs (Some k) = rdI xs k"
| "rdIo xs None = None"

section \<open>Constants\<close>

definition GRAVITY :: num where "GRAVITY = Fin 30"
definition FRICTION_AIR :: num where "FRICTION_AIR = Fin 0.98"
definition BOUNCE_WALL :: num where "BOUNCE_WALL = Fin 0.3"
definition BOUNCE_GROUND :: num where "BOUNCE_GROUND = Fin 0.3"
definition HAND_RADIUS_SQ :: num where "HAND_RADIUS_SQ = Fin (150 * 150)"
definition INTERACTION_FORCE :: num where "INTERACTION_FORCE = Fin 800"
definition MAX_VEL :: num where "MAX_VEL = Fin 250"
definition CELL_SIZE :: num where "CELL_SIZE = Fin 12"
definition dt :: num where "dt = Fin (1 / 60)"

section \<open>Pass 1: integration and grid insertion\<close>

text \<open>
  The ticker callback is split at its own comments. Every piece takes the arrays and
  returns them updated; \<open>i\<close> is the loop index. The value \<^verbatim>\<open>Math.random()\<close> returns
  when particle \<open>i\<close> is respawned is \<open>rnd i\<close> (a particle draws at most once in a tick).
  The sprites (tint, position) and the statistics callback are outputs to the renderer
  and the host; they are not part of the arrays and are left out.
\<close>

definition respawn_safety :: "env \<Rightarrow> (nat \<Rightarrow> real) \<Rightarrow> nat \<Rightarrow> sim \<Rightarrow> sim" where
  "respawn_safety e rnd i s =
     (if \<not> isFinite (rd (px s) (int i)) \<or> \<not> isFinite (rd (py s) (int i))
      then s\<lparr>px := wr (px s) (int i) (Fin (rnd i) * screenW e),
             py := wr (py s) (int i) (screenH e - Fin 50),
             pvx := wr (pvx s) (int i) (Fin 0),
             pvy := wr (pvy s) (int i) (Fin 0)\<rparr>
      else s)"

text \<open>The body of \<^verbatim>\<open>for (const hand of hands)\<close>: one hand acts on particle \<open>i\<close>. The
  accumulated acceleration \<open>(ax, ay)\<close> is carried beside the arrays.\<close>

definition hand_force :: "HandGesture \<Rightarrow> num \<Rightarrow> num" where
  "hand_force g falloff =
     (if g = OPEN_PALM then INTERACTION_FORCE * falloff
      else if g = CLOSED_FIST then (- INTERACTION_FORCE) * falloff
      else Fin 0)"

definition hand_interaction ::
  "env \<Rightarrow> nat \<Rightarrow> HandData \<Rightarrow> sim \<times> num \<times> num \<Rightarrow> sim \<times> num \<times> num" where
  "hand_interaction e i hand = (\<lambda>(s, ax, ay).
     let handX = hand_x hand * screenW e;
         handY = hand_y hand * screenH e;
         dx = rd (px s) (int i) - handX;
         dy = rd (py s) (int i) - handY;
         distSq = dx * dx + dy * dy
     in if distSq < HAND_RADIUS_SQ then
          let dist = nsqrt distSq;
              nx = dx / js_or dist (Fin 0.1);
              ny = dy / js_or dist (Fin 0.1);
              falloff = Fin 1 - dist / nsqrt HAND_RADIUS_SQ;
              handVelX = js_or (velocity_x hand) (Fin 0) * screenW e * Fin 0.04;
              handVelY = js_or (velocity_y hand) (Fin 0) * screenH e * Fin 0.04;
              s1 = s\<lparr>pvx := wr (pvx s) (int i) (rd (pvx s) (int i) + handVelX * falloff)\<rparr>;
              s2 = s1\<lparr>pvy := wr (pvy s1) (int i) (rd (pvy s1) (int i) + handVelY * falloff)\<rparr>;
              force = hand_force (gesture hand) falloff
          in (s2, ax + nx * force, ay + ny * force)
        else (s, ax, ay))"

definition integration :: "nat \<Rightarrow> num \<Rightarrow> num \<Rightarrow> sim \<Rightarrow> sim" where
  "integration i ax ay s =
     (let s1 = s\<lparr>pvx := wr (pvx s) (int i) (rd (pvx s) (int i) + ax * dt)\<rparr>;
          s2 = s1\<lparr>pvy := wr (pvy s1) (int i) (rd (pvy s1) (int i) + ay * dt)\<rparr>;
          s3 = s2\<lparr>pvx := wr (pvx s2) (int i) (rd (pvx s2) (int i) * FRICTION_AIR)\<rparr>
      in s3\<lparr>pvy := wr (pvy s3) (int i) (rd (pvy s3) (int i) * FRICTION_AIR)\<rparr>)"

definition max_velocity_x :: "nat \<Rightarrow> sim \<Rightarrow> sim" where
  "max_velocity_x i s =
     (if MAX_VEL < rd (pvx s) (int i) then s\<lparr>pvx := wr (pvx s) (int i) MAX_VEL\<rparr>
      else if rd (pvx s) (int i) < - MAX_VEL then s\<lparr>pvx := wr (pvx s) (int i) (- MAX_VEL)\<rparr>
      else s)"

definition max_velocity_y :: "nat \<Rightarrow> sim \<Rightarrow> sim" where
  "max_velocity_y i s =
     (if MAX_VEL < rd (pvy s) (int i) then s\<lparr>pvy := wr (pvy s) (int i) MAX_VEL\<rparr>
      else if rd (pvy s) (int i) < - MAX_VEL then s\<lparr>pvy := wr (pvy s) (int i) (- MAX_VEL)\<rparr>
      else s)"

definition max_velocity :: "nat \<Rightarrow> sim \<Rightarrow> sim" where
  "max_velocity i s = max_velocity_y i (max_velocity_x i s)"

definition move :: "nat \<Rightarrow> sim \<Rightarrow> sim" where
  "move i s =
     (let s1 = s\<lparr>px := wr (px s) (int i) (rd (px s) (int i) + rd (pvx s) (int i) * dt * Fin 5)\<rparr>
      in s1\<lparr>py := wr (py s1) (int i) (rd (py s1) (int i) + rd (pvy s1) (int i) * dt * Fin 5)\<rparr>)"

text \<open>The two statements of the boundary block: first the ground and the ceiling, then
  the two walls. \<open>rRad\<close> is \<^verbatim>\<open>p.radius[i]\<close>.\<close>

definition boundaries_y :: "env \<Rightarrow> nat \<Rightarrow> sim \<Rightarrow> sim" where
  "boundaries_y e i s =
     (let rRad = rd (pradius s) (int i)
      in if screenH e - rRad < rd (py s) (int i)
         then s\<lparr>py := wr (py s) (int i) (screenH e - rRad),
                pvy := wr (pvy s) (int i) (rd (pvy s) (int i) * (- BOUNCE_GROUND))\<rparr>
         else if rd (py s) (int i) < rRad
         then s\<lparr>py := wr (py s) (int i) rRad,
                pvy := wr (pvy s) (int i) (rd (pvy s) (int i) * (- BOUNCE_WALL))\<rparr>
         else s)"

definition boundaries_x :: "env \<Rightarrow> nat \<Rightarrow> sim \<Rightarrow> sim" where
  "boundaries_x e i s =
     (let rRad = rd (pradius s) (int i)
      in if screenW e - rRad < rd (px s) (int i)
         then s\<lparr>px := wr (px s) (int i) (screenW e - rRad),
                pvx := wr (pvx s) (int i) (rd (pvx s) (int i) * (- BOUNCE_WALL))\<rparr>
         else if rd (px s) (int i) < rRad
         then s\<lparr>px := wr (px s) (int i) rRad,
                pvx := wr (pvx s) (int i) (rd (pvx s) (int i) * (- BOUNCE_WALL))\<rparr>
         else s)"

definition boundaries :: "env \<Rightarrow> nat \<Rightarrow> sim \<Rightarrow> sim" where
  "boundaries e i s = boundaries_x e i (boundaries_y e i s)"

text \<open>The cell of particle \<open>i\<close>, as both passes compute it, and the guard of the grid.
  A value read from the head array outside its range would be stored as 0 in the
  \<^verbatim>\<open>Int32Array\<close>.\<close>

definition cell_x :: "sim \<Rightarrow> nat \<Rightarrow> int" where
  "cell_x s i = to_int32 (rd (px s) (int i) / CELL_SIZE)"

definition cell_y :: "sim \<Rightarrow> nat \<Rightarrow> int" where
  "cell_y s i = to_int32 (rd (py s) (int i) / CELL_SIZE)"

definition in_grid :: "env \<Rightarrow> int \<Rightarrow> int \<Rightarrow> bool" where
  "in_grid e cx cy = (0 \<le> cx \<and> cx < gridW e \<and> 0 \<le> cy \<and> cy < gridH e)"

definition insert_grid :: "env \<Rightarrow> nat \<Rightarrow> sim \<Rightarrow> sim" where
  "insert_grid e i s =
     (let cx = cell_x s i; cy = cell_y s i
      in if in_grid e cx cy then
           let cellIdx = cy * gridW e + cx;
               s1 = s\<lparr>nextParticle := wrI (nextParticle s) (int i)
                          (case rdI (gridHead s) cellIdx of Some h \<Rightarrow> h | None \<Rightarrow> 0)\<rparr>
           in s1\<lparr>gridHead := wrI (gridHead s1) cellIdx (int i)\<rparr>
         else s)"

definition hands_loop :: "env \<Rightarrow> nat \<Rightarrow> HandData list \<Rightarrow> sim \<Rightarrow> sim \<times> num \<times> num" where
  "hands_loop e i hands s = fold (hand_interaction e i) hands (s, Fin 0, GRAVITY)"

definition pass1_particle :: "env \<Rightarrow> HandData list \<Rightarrow> (nat \<Rightarrow> real) \<Rightarrow> nat \<Rightarrow> sim \<Rightarrow> sim" where
  "pass1_particle e hands rnd i s =
     (case hands_loop e i hands (respawn_safety e rnd i s) of
        (s1, ax, ay) \<Rightarrow>
          insert_grid e i (boundaries e i (move i (max_velocity i (integration i ax ay s1)))))"

definition pass1 :: "env \<Rightarrow> HandData list \<Rightarrow> (nat \<Rightarrow> real) \<Rightarrow> sim \<Rightarrow> sim" where
  "pass1 e hands rnd s = fold (pass1_particle e hands rnd) [0..<particleCount e] s"

section \<open>Pass 2: particle-particle collisions\<close>

text \<open>The two halves of the body of the overlap test: the positions of \<open>i\<close> and \<open>j\<close>
  move apart along the normal \<open>(nx, ny)\<close>, then the velocities change if the pair is
  approaching. The candidate \<open>j\<close> is what was read from the grid arrays.\<close>

definition positional_correction ::
  "nat \<Rightarrow> int option \<Rightarrow> num \<Rightarrow> num \<Rightarrow> num \<Rightarrow> sim \<Rightarrow> sim" where
  "positional_correction i j nx ny overlap s =
     (let percent = Fin 0.5;
          s1 = s\<lparr>px := wr (px s) (int i) (rd (px s) (int i) + nx * overlap * percent)\<rparr>;
          s2 = s1\<lparr>py := wr (py s1) (int i) (rd (py s1) (int i) + ny * overlap * percent)\<rparr>;
          s3 = s2\<lparr>px := wro (px s2) j (rdo (px s2) j - nx * overlap * percent)\<rparr>
      in s3\<lparr>py := wro (py s3) j (rdo (py s3) j - ny * overlap * percent)\<rparr>)"

definition velocity_response :: "nat \<Rightarrow> int option \<Rightarrow> num \<Rightarrow> num \<Rightarrow> sim \<Rightarrow> sim" where
  "velocity_response i j nx ny s =
     (let dvx = rd (pvx s) (int i) - rdo (pvx s) j;
          dvy = rd (pvy s) (int i) - rdo (pvy s) j;
          dot = dvx * nx + dvy * ny
      in if dot < Fin 0 then
           let impulse = Fin 0.5;
               impulseX = nx * dot * impulse;
               impulseY = ny * dot * impulse;
               s1 = s\<lparr>pvx := wr (pvx s) (int i) (rd (pvx s) (int i) - impulseX)\<rparr>;
               s2 = s1\<lparr>pvy := wr (pvy s1) (int i) (rd (pvy s1) (int i) - impulseY)\<rparr>;
               s3 = s2\<lparr>pvx := wro (pvx s2) j (rdo (pvx s2) j + impulseX)\<rparr>
           in s3\<lparr>pvy := wro (pvy s3) j (rdo (pvy s3) j + impulseY)\<rparr>
         else s)"

text \<open>The body of \<^verbatim>\<open>if (i !== j)\<close>.\<close>

definition resolve_pair :: "nat \<Rightarrow> int option \<Rightarrow> sim \<Rightarrow> sim" where
  "resolve_pair i j s =
     (let dx = rd (px s) (int i) - rdo (px s) j;
          dy = rd (py s) (int i) - rdo (py s) j;
          distSq = dx * dx + dy * dy;
          rSum = rd (pradius s) (int i) + rdo (pradius s) j
      in if distSq < rSum * rSum \<and> Fin 0.001 < distSq then
           let dist = nsqrt distSq;
               overlap = rSum - dist;
               nx = dx / dist;
               ny = dy / dist
           in velocity_response i j nx ny (positional_correction i j nx ny overlap s)
         else s)"

text \<open>The \<^verbatim>\<open>while\<close> loop over one cell's list. It returns the arrays and the final value
  of \<open>iterations\<close>, the number of entries visited.\<close>

function walk :: "nat \<Rightarrow> int option \<Rightarrow> nat \<Rightarrow> sim \<Rightarrow> sim \<times> nat" where
  "walk i j iterations s =
     (if j \<noteq> Some (- 1) \<and> iterations < 50 then
        let s1 = (if j \<noteq> Some (int i) then resolve_pair i j s else s)
        in walk i (rdIo (nextParticle s1) j) (Suc iterations) s1
      else (s, iterations))"
  by pat_completeness auto
termination
  by (relation "measure (\<lambda>(i, j, iterations, s). 50 - iterations)") auto

declare walk.simps [simp del]

definition scan_cell :: "env \<Rightarrow> nat \<Rightarrow> int \<Rightarrow> int \<Rightarrow> sim \<Rightarrow> sim \<times> nat" where
  "scan_cell e i ncx ncy s =
     (if in_grid e ncx ncy then walk i (rdI (gridHead s) (ncy * gridW e + ncx)) 0 s
      else (s, 0))"

text \<open>The two \<^verbatim>\<open>for\<close> loops over \<open>dy\<close> and \<open>dx\<close>, around the cell \<open>(cx, cy)\<close> computed
  once before them. The second component adds up the entries visited in the cells.\<close>

definition neighbourhood :: "env \<Rightarrow> nat \<Rightarrow> int \<Rightarrow> int \<Rightarrow> sim \<Rightarrow> sim \<times> nat" where
  "neighbourhood e i cx cy s =
     fold (\<lambda>dy. fold (\<lambda>dx (s1, n). case scan_cell e i (cx + dx) (cy + dy) s1 of
                                       (s2, k) \<Rightarrow> (s2, n + k)) [- 1, 0, 1])
          [- 1, 0, 1] (s, 0)"

definition pass2_particle :: "env \<Rightarrow> nat \<Rightarrow> sim \<Rightarrow> sim" where
  "pass2_particle e i s = fst (neighbourhood e i (cell_x s i) (cell_y s i) s)"

definition pass2 :: "env \<Rightarrow> sim \<Rightarrow> sim" where
  "pass2 e s = fold (pass2_particle e) [0..<particleCount e] s"

section \<open>One tick\<close>

text \<open>\<^verbatim>\<open>gridHead.fill(-1)\<close>, then the two passes.\<close>

definition grid_reset :: "sim \<Rightarrow> sim" where
  "grid_reset s = s\<lparr>gridHead := map (\<lambda>_. - 1) (gridHead s)\<rparr>"

definition tick :: "env \<Rightarrow> HandData list \<Rightarrow> (nat \<Rightarrow> real) \<Rightarrow> sim \<Rightarrow> sim" where
  "tick e hands rnd s = pass2 e (pass1 e hands rnd (grid_reset s))"

section \<open>Predicates and sample states used in the statements\<close>

text \<open>All five attributes of the particle at index \<open>k\<close> are finite numbers (so \<open>k\<close> is
  inside the arrays).\<close>

definition finite_particle :: "sim \<Rightarrow> int \<Rightarrow> bool" where
  "finite_particle s k =
     (isFinite (rd (px s) k) \<and> isFinite (rd (py s) k) \<and> isFinite (rd (pvx s) k)
      \<and> isFinite (rd (pvy s) k) \<and> isFinite (rd (pradius s) k))"


text \<open>Two overlapping particles that approach each other.\<close>

definition s_pair :: sim where
  "s_pair = \<lparr>px = [Fin 10, Fin 12], py = [Fin 10, Fin 10], pvx = [Fin 1, Fin (- 1)],
     pvy = [Fin 0, Fin 0], pradius = [Fin 2, Fin 2], gridHead = [], nextParticle = []\<rparr>"


text \<open>The squared distance and the sum of radii that the overlap test of Pass 2 compares,
  computed as the source computes them.\<close>

definition pair_distSq :: "sim \<Rightarrow> nat \<Rightarrow> int option \<Rightarrow> num" where
  "pair_distSq s i j =
     (let dx = rd (px s) (int i) - rdo (px s) j; dy = rd (py s) (int i) - rdo (py s) j
      in dx * dx + dy * dy)"

definition pair_rSum :: "sim \<Rightarrow> nat \<Rightarrow> int option \<Rightarrow> num" where
  "pair_rSum s i j = rd (pradius s) (int i) + rdo (pradius s) j"

text \<open>The overlap test of Pass 2 on the candidate \<open>j\<close> of particle \<open>i\<close>; no two distinct
  particles of the simulation pass it.\<close>

definition overlapping :: "sim \<Rightarrow> nat \<Rightarrow> int option \<Rightarrow> bool" where
  "overlapping s i j =
     (pair_distSq s i j < pair_rSum s i j * pair_rSum s i j \<and> Fin 0.001 < pair_distSq s i j)"

definition apart :: "env \<Rightarrow> sim \<Rightarrow> bool" where
  "apart e s =
     list_all (\<lambda>i. list_all (\<lambda>k. k = i \<or> \<not> overlapping s i (Some (int k))) [0..<particleCount e])
       [0..<particleCount e]"


text \<open>The arrays have the sizes the component allocates: \<open>particleCount\<close> elements in the
  particle arrays and in \<open>nextParticle\<close>, \<open>gridW * gridH\<close> elements in \<open>gridHead\<close>.\<close>

definition well_sized :: "env \<Rightarrow> sim \<Rightarrow> bool" where
  "well_sized e s =
     (length (px s) = particleCount e \<and> length (py s) = particleCount e
      \<and> length (pvx s) = particleCount e \<and> length (pvy s) = particleCount e
      \<and> length (pradius s) = particleCount e \<and> length (nextParticle s) = particleCount e
      \<and> int (length (gridHead s)) = gridW e * gridH e)"

text \<open>A screen of 24 by 24 pixels (2 by 2 cells) with one particle whose position is
  finite and whose \<open>vx\<close> is \<open>NaN\<close>.\<close>

definition e_one :: env where
  "e_one = \<lparr>screenW = Fin 24, screenH = Fin 24, gridW = 2, gridH = 2, particleCount = 1\<rparr>"

definition s_nan_velocity :: sim where
  "s_nan_velocity = \<lparr>px = [Fin 10], py = [Fin 10], pvx = [NaN], pvy = [Fin 0],
     pradius = [Fin 2], gridHead = [- 1, - 1, - 1, - 1], nextParticle = [- 1]\<rparr>"

definition s_nan_position :: sim where
  "s_nan_position = \<lparr>px = [NaN], py = [Fin 10], pvx = [Fin 3], pvy = [Fin 4],
     pradius = [Fin 2], gridHead = [- 1, - 1, - 1, - 1], nextParticle = [- 1]\<rparr>"

text \<open>A screen of 600 by 600 pixels, an open palm at its centre, and one particle 5 pixels
  from the hand.\<close>

definition e_hand :: env where
  "e_hand = \<lparr>screenW = Fin 600, screenH = Fin 600, gridW = 50, gridH = 50, particleCount = 1\<rparr>"

definition palm :: HandData where
  "palm = \<lparr>hand_id = ''Right'', hand_x = Fin 0.5, hand_y = Fin 0.5, gesture = OPEN_PALM,
     velocity_x = Fin 0, velocity_y = Fin 0\<rparr>"

definition s_hand :: sim where
  "s_hand = \<lparr>px = [Fin 303], py = [Fin 304], pvx = [Fin 0], pvy = [Fin 0],
     pradius = [Fin 2], gridHead = [], nextParticle = [- 1]\<rparr>"

text \<open>The particle arrays of \<open>s'\<close> differ from those of \<open>s\<close> at most in the position
  and velocity of particle \<open>i\<close>.\<close>

definition same_elsewhere :: "nat \<Rightarrow> sim \<Rightarrow> sim \<Rightarrow> bool" where
  "same_elsewhere i s s' =
     (length (px s') = length (px s) \<and> length (py s') = length (py s)
      \<and> length (pvx s') = length (pvx s) \<and> length (pvy s') = length (pvy s)
      \<and> pradius s' = pradius s
      \<and> (\<forall>k. k \<noteq> int i \<longrightarrow>
            rd (px s') k = rd (px s) k \<and> rd (py s') k = rd (py s) k
          \<and> rd (pvx s') k = rd (pvx s) k \<and> rd (pvy s') k = rd (pvy s) k))"

text \<open>The position of particle \<open>i\<close> is inside the screen by its radius on every side; its
  velocity is within \<open>MAX_VEL\<close> on both axes. The comparisons are those of the numbers:
  they are false on \<open>NaN\<close>.\<close>

definition in_bounds :: "env \<Rightarrow> sim \<Rightarrow> nat \<Rightarrow> bool" where
  "in_bounds e s i =
     (rd (pradius s) (int i) \<le> rd (px s) (int i)
      \<and> rd (px s) (int i) \<le> screenW e - rd (pradius s) (int i)
      \<and> rd (pradius s) (int i) \<le> rd (py s) (int i)
      \<and> rd (py s) (int i) \<le> screenH e - rd (pradius s) (int i))"

text \<open>The same with the upper bounds as the boundary block stores them: the clamp
  \<^verbatim>\<open>p.x[i] = screenW - rRad\<close> goes through a \<^verbatim>\<open>Float32Array\<close>, so what the array holds
  is the 32-bit float nearest to \<open>screenW - radius\<close>.\<close>

definition in_bounds_rounded :: "env \<Rightarrow> sim \<Rightarrow> nat \<Rightarrow> bool" where
  "in_bounds_rounded e s i =
     (rd (pradius s) (int i) \<le> rd (px s) (int i)
      \<and> rd (px s) (int i) \<le> fround (screenW e - rd (pradius s) (int i))
      \<and> rd (pradius s) (int i) \<le> rd (py s) (int i)
      \<and> rd (py s) (int i) \<le> fround (screenH e - rd (pradius s) (int i)))"

definition speed_limited :: "sim \<Rightarrow> nat \<Rightarrow> bool" where
  "speed_limited s i =
     (- MAX_VEL \<le> rd (pvx s) (int i) \<and> rd (pvx s) (int i) \<le> MAX_VEL
      \<and> - MAX_VEL \<le> rd (pvy s) (int i) \<and> rd (pvy s) (int i) \<le> MAX_VEL)"

text \<open>The velocities of the hands are finite numbers.\<close>

definition finite_hands :: "HandData list \<Rightarrow> bool" where
  "finite_hands hands = list_all (\<lambda>h. isFinite (velocity_x h) \<and> isFinite (velocity_y h)) hands"

text \<open>The screen has finite dimensions; it is at least as wide and as high as the
  diameter of particle \<open>i\<close>.\<close>

definition finite_screen :: "env \<Rightarrow> bool" where
  "finite_screen e = (isFinite (screenW e) \<and> isFinite (screenH e))"

definition room_for :: "env \<Rightarrow> sim \<Rightarrow> nat \<Rightarrow> bool" where
  "room_for e s i =
     (Fin 2 * rd (pradius s) (int i) \<le> screenW e \<and> Fin 2 * rd (pradius s) (int i) \<le> screenH e)"

text \<open>What Pass 1 needs of particle \<open>k\<close> to bring it inside the bounds: the index is
  inside the arrays, the radius is finite and, unless the position is not finite (then
  the particle is respawned at rest), the velocity is finite.\<close>

definition sound_particle :: "sim \<Rightarrow> int \<Rightarrow> bool" where
  "sound_particle s k =
     (0 \<le> k \<and> k < int (length (px s)) \<and> k < int (length (py s))
      \<and> k < int (length (pvx s)) \<and> k < int (length (pvy s))
      \<and> isFinite (rd (pradius s) k)
      \<and> (isFinite (rd (px s) k) \<and> isFinite (rd (py s) k) \<longrightarrow>
             isFinite (rd (pvx s) k) \<and> isFinite (rd (pvy s) k)))"

text \<open>On the 24 by 24 screen, one particle close to the ground and falling fast.\<close>

definition s_fall :: sim where
  "s_fall = \<lparr>px = [Fin 10], py = [Fin 20], pvx = [Fin 0], pvy = [Fin 300],
     pradius = [Fin 2], gridHead = [- 1, - 1, - 1, - 1], nextParticle = [- 1]\<rparr>"

text \<open>A screen of 60 by 60 pixels (5 by 5 cells) with two particles. In \<open>s_wall\<close> they are
  at rest, side by side, the first one touching the left wall and overlapping the
  second. In \<open>s_fast\<close> they overlap after Pass 1 (their centres are then 1.5 apart
  horizontally and 2 apart vertically) and move at the velocity limit, the first
  upwards and the second downwards. All values are 32-bit floats.\<close>

definition e_two :: env where
  "e_two = \<lparr>screenW = Fin 60, screenH = Fin 60, gridW = 5, gridH = 5, particleCount = 2\<rparr>"

definition empty_grid :: "int list" where
  "empty_grid = replicate 25 (- 1)"

definition s_wall :: sim where
  "s_wall = \<lparr>px = [Fin 2, Fin 5], py = [Fin 30, Fin 30], pvx = [Fin 0, Fin 0],
     pvy = [Fin 0, Fin 0], pradius = [Fin 2, Fin 2], gridHead = empty_grid,
     nextParticle = [- 1, - 1]\<rparr>"

definition s_fast :: sim where
  "s_fast = \<lparr>px = [Fin (27 / 2), Fin 12], py = [Fin (12757675 / 262144), Fin 5],
     pvx = [Fin 300, Fin 300], pvy = [Fin (- 300), Fin 300], pradius = [Fin 2.5, Fin 2.5],
     gridHead = empty_grid, nextParticle = [- 1, - 1]\<rparr>"


text \<open>The 60 by 60 screen with one particle, at rest one pixel above the ground; its
  radius is the 32-bit float nearest to 1.6.\<close>

definition e_small :: env where
  "e_small = \<lparr>screenW = Fin 60, screenH = Fin 60, gridW = 5, gridH = 5, particleCount = 1\<rparr>"

definition s_low :: sim where
  "s_low = \<lparr>px = [Fin 30], py = [Fin 59], pvx = [Fin 0], pvy = [Fin 0],
     pradius = [Fin (13421773 / 8388608)], gridHead = empty_grid, nextParticle = [- 1]\<rparr>"

text \<open>Two overlapping particles, the first one moving towards the second; the distance
  between them is 2.5.\<close>

definition s_skew :: sim where
  "s_skew = \<lparr>px = [Fin (33 / 2), Fin 15], py = [Fin 18, Fin 16], pvx = [Fin (- 120), Fin (1 / 8)],
     pvy = [Fin 0, Fin 0], pradius = [Fin (5 / 2), Fin (7 / 4)], gridHead = [], nextParticle = []\<rparr>"

text \<open>The positions and the radius of particle \<open>k\<close> are at most \<open>P\<close> in magnitude, its
  velocity components at most \<open>V\<close>.\<close>

definition magnitude_within :: "real \<Rightarrow> num \<Rightarrow> bool" where
  "magnitude_within M a = (Fin (- M) \<le> a \<and> a \<le> Fin M)"

definition particle_within :: "real \<Rightarrow> real \<Rightarrow> sim \<Rightarrow> int \<Rightarrow> bool" where
  "particle_within P V s k =
     (magnitude_within P (rd (px s) k) \<and> magnitude_within P (rd (py s) k)
      \<and> magnitude_within P (rd (pradius s) k)
      \<and> magnitude_within V (rd (pvx s) k) \<and> magnitude_within V (rd (pvy s) k))"

text \<open>The safe default of the fault check, as a state: the arrays of \<open>s\<close> with particle
  \<open>i\<close> at \<open>(random * screenW, screenH - 50)\<close>, as 32-bit floats, and at rest.\<close>

definition safe_default :: "env \<Rightarrow> (nat \<Rightarrow> real) \<Rightarrow> nat \<Rightarrow> sim \<Rightarrow> sim" where
  "safe_default e rnd i s =
     s\<lparr>px := (px s)[i := fround (Fin (rnd i) * screenW e)],
       py := (py s)[i := fround (screenH e - Fin 50)],
       pvx := (pvx s)[i := Fin 0],
       pvy := (pvy s)[i := Fin 0]\<rparr>"

text \<open>The arrays at the moment the loop of Pass 1 reaches particle \<open>i\<close>: the grid heads
  have been reset and the particles before \<open>i\<close> have been processed.\<close>

definition reached :: "env \<Rightarrow> HandData list \<Rightarrow> (nat \<Rightarrow> real) \<Rightarrow> nat \<Rightarrow> sim \<Rightarrow> sim" where
  "reached e hands rnd i s = fold (pass1_particle e hands rnd) [0..<i] (grid_reset s)"

text \<open>The grid as a data structure: the index of the cell Pass 1 computes for particle
  \<open>i\<close>, whether that cell is one of the grid, and the list of indices reached from a
  head by following \<open>nextParticle\<close> up to the sentinel. \<open>particleCount\<close> steps are enough
  to reach the end of a list built by Pass 1.\<close>

definition cell_index :: "env \<Rightarrow> sim \<Rightarrow> nat \<Rightarrow> int" where
  "cell_index e s i = cell_y s i * gridW e + cell_x s i"

definition on_grid :: "env \<Rightarrow> sim \<Rightarrow> nat \<Rightarrow> bool" where
  "on_grid e s i = in_grid e (cell_x s i) (cell_y s i)"

fun chain :: "int list \<Rightarrow> nat \<Rightarrow> int \<Rightarrow> int list" where
  "chain nxt 0 j = []"
| "chain nxt (Suc fuel) j =
     (if j = - 1 then []
      else j # chain nxt fuel (case rdI nxt j of Some k \<Rightarrow> k | None \<Rightarrow> - 1))"

definition cell_list :: "env \<Rightarrow> sim \<Rightarrow> int \<Rightarrow> int list" where
  "cell_list e s c =
     (case rdI (gridHead s) c of Some h \<Rightarrow> chain (nextParticle s) (particleCount e) h | None \<Rightarrow> [])"

text \<open>The particles among the first \<open>m\<close> whose cell is cell \<open>c\<close> of the grid, the
  last inserted first.\<close>

definition members :: "env \<Rightarrow> sim \<Rightarrow> nat \<Rightarrow> int \<Rightarrow> int list" where
  "members e s m c =
     map int (rev (filter (\<lambda>i. on_grid e s i \<and> cell_index e s i = c) [0..<m]))"

text \<open>The screen has grown to 60 by 60 pixels after the grid was sized for 24 by 24
  (2 by 2 cells); one particle is at rest in the middle of the screen.\<close>

definition e_grown :: env where
  "e_grown = \<lparr>screenW = Fin 60, screenH = Fin 60, gridW = 2, gridH = 2, particleCount = 1\<rparr>"

definition s_mid :: sim where
  "s_mid = \<lparr>px = [Fin 40], py = [Fin 40], pvx = [Fin 0], pvy = [Fin 0],
     pradius = [Fin 2], gridHead = [- 1, - 1, - 1, - 1], nextParticle = [- 1]\<rparr>"

text \<open>The same particle on the same screen, with the grid of that screen (5 by 5
  cells).\<close>

definition s_mid_sized :: sim where
  "s_mid_sized = \<lparr>px = [Fin 40], py = [Fin 40], pvx = [Fin 0], pvy = [Fin 0],
     pradius = [Fin 2], gridHead = empty_grid, nextParticle = [- 1]\<rparr>"

text \<open>The positions of the first \<open>n\<close> particles are finite.\<close>

definition finite_positions :: "nat \<Rightarrow> sim \<Rightarrow> bool" where
  "finite_positions n s =
     list_all (\<lambda>i. isFinite (rd (px s) (int i)) \<and> isFinite (rd (py s) (int i))) [0..<n]"

text \<open>The loop of \<open>walk\<close> run over an explicit list of candidates, used to compare two
  traversals of the same cell.\<close>

fun walk_list :: "nat \<Rightarrow> int list \<Rightarrow> nat \<Rightarrow> sim \<Rightarrow> sim \<times> nat" where
  "walk_list i [] k s = (s, k)"
| "walk_list i (j # js) k s =
     (if k < 50
      then walk_list i js (Suc k) (if j \<noteq> int i then resolve_pair i (Some j) s else s)
      else (s, k))"

text \<open>Two link arrays \<open>ns\<close> and \<open>nt\<close> describe the same lists under the heads \<open>gh\<close>:
  from every head both give the same list, complete within \<open>particleCount\<close> steps and
  made of indices inside the arrays.\<close>

definition links_agree :: "env \<Rightarrow> int list \<Rightarrow> int list \<Rightarrow> int list \<Rightarrow> bool" where
  "links_agree e gh ns nt =
     (length nt = length ns \<and> int (length gh) = gridW e * gridH e
      \<and> (\<forall>c. 0 \<le> c \<and> c < int (length gh) \<longrightarrow>
            (\<forall>f\<ge>particleCount e.
                chain ns f (gh ! nat c) = chain ns (particleCount e) (gh ! nat c)
              \<and> chain nt f (gh ! nat c) = chain ns (particleCount e) (gh ! nat c))
          \<and> (\<forall>x\<in>set (chain ns (particleCount e) (gh ! nat c)).
                0 \<le> x \<and> x < int (length ns))))"

text \<open>The state \<open>s_fall\<close> with other values left in the grid arrays by earlier ticks.\<close>

definition s_fall_stale :: sim where
  "s_fall_stale = s_fall\<lparr>gridHead := [0, - 1, 0, 0], nextParticle := [0]\<rparr>"

section \<open>Properties\<close>

subsection \<open>The capped traversal\<close>

lemma walk_iterations: "snd (walk i j iterations s) \<le> max iterations 50"
proof (induction i j iterations s rule: walk.induct)
  case (1 i j iterations s)
  show ?case
  proof (cases "j \<noteq> Some (- 1) \<and> iterations < 50")
    case True
    define s1 where "s1 = (if j \<noteq> Some (int i) then resolve_pair i j s else s)"
    have "walk i j iterations s = walk i (rdIo (nextParticle s1) j) (Suc iterations) s1"
      using True by (subst walk.simps) (simp add: s1_def Let_def)
    moreover have "snd (walk i (rdIo (nextParticle s1) j) (Suc iterations) s1) \<le> max (Suc iterations) 50"
      using "1.IH"[OF True s1_def] .
    ultimately show ?thesis using True by simp
  next
    case False
    then have "walk i j iterations s = (s, iterations)"
      by (subst walk.simps) auto
    then show ?thesis by simp
  qed
qed

lemma scan_cell_visits: "snd (scan_cell e i ncx ncy s) \<le> 50"
  using walk_iterations[of i _ 0 s] by (simp add: scan_cell_def)

lemma row_visits:
  "snd (fold (\<lambda>dx (s1, n). case scan_cell e i (cx + dx) cy s1 of (s2, k) \<Rightarrow> (s2, n + k)) ds (s, m))
     \<le> m + 50 * length ds"
proof (induction ds arbitrary: s m)
  case Nil
  then show ?case by simp
next
  case (Cons d ds)
  obtain s2 k where sc: "scan_cell e i (cx + d) cy s = (s2, k)" by (cases "scan_cell e i (cx + d) cy s")
  have "k \<le> 50" using scan_cell_visits[of e i "cx + d" cy s] sc by simp
  then show ?case using Cons.IH[of s2 "m + k"] sc by simp
qed

lemma rows_visits:
  "snd (fold (\<lambda>dy. fold (\<lambda>dx (s1, n). case scan_cell e i (cx + dx) (cy + dy) s1 of (s2, k) \<Rightarrow> (s2, n + k)) ds) es (s, m))
     \<le> m + 50 * length ds * length es"
proof (induction es arbitrary: s m)
  case Nil
  then show ?case by simp
next
  case (Cons d es)
  obtain s2 k where r: "fold (\<lambda>dx (s1, n). case scan_cell e i (cx + dx) (cy + d) s1 of (s2, k) \<Rightarrow> (s2, n + k)) ds (s, m) = (s2, k)"
    by (cases "fold (\<lambda>dx (s1, n). case scan_cell e i (cx + dx) (cy + d) s1 of (s2, k) \<Rightarrow> (s2, n + k)) ds (s, m)")
  have "k \<le> m + 50 * length ds" using row_visits[of e i cx "cy + d" ds s m] r by simp
  then show ?case using Cons.IH[of s2 k] r by (simp add: algebra_simps)
qed

text \<open>
  C8. In Pass 2 the traversal of one cell's list ends after at most 50 visited entries
  (the loop is the total function \<open>walk\<close>, whose measure is \<open>50 - iterations\<close>), and
  over the at most nine cells of its neighbourhood a particle visits at most 450
  entries in a tick.
\<close>

theorem capped_traversal:
  "snd (walk i j 0 s) \<le> 50 \<and> snd (scan_cell e i ncx ncy s) \<le> 50
     \<and> snd (neighbourhood e i cx cy s) \<le> 450"
  using walk_iterations[of i j 0 s] scan_cell_visits[of e i ncx ncy s]
    rows_visits[of e i cx cy "[- 1, 0, 1]" "[- 1, 0, 1]" s 0]
  by (simp add: neighbourhood_def)

theorem capped_traversal_witness:
  "snd (walk 0 (Some 1) 0 s_pair) \<le> 50 \<and> snd (scan_cell e_one 0 0 0 s_pair) \<le> 50
     \<and> snd (neighbourhood e_one 0 0 0 s_pair) \<le> 450"
  by (rule capped_traversal)

subsection \<open>Numbers and arrays\<close>

lemma isFinite_iff: "isFinite a \<longleftrightarrow> (\<exists>r. a = Fin r)"
  by (cases a) simp_all

lemma minus_Fin [simp]: "Fin a - Fin b = Fin (a - b)"
  by (simp add: minus_num_def)

lemma less_eq_Fin [simp]: "Fin a \<le> Fin b \<longleftrightarrow> a \<le> b"
  by (auto simp: less_eq_num_def)

lemma le_num_refl: "a \<noteq> NaN \<Longrightarrow> a \<le> a"
  by (simp add: less_eq_num_def)

lemma le_num_trans: "a \<le> b \<Longrightarrow> b \<le> c \<Longrightarrow> a \<le> (c::num)"
  by (cases a; cases b; cases c) (auto simp: less_eq_num_def)

lemma le_num_not_NaN: "a \<le> b \<Longrightarrow> a \<noteq> NaN \<and> b \<noteq> (NaN::num)"
  by (cases a; cases b) (simp_all add: less_eq_num_def)

lemma not_less_num: "a \<noteq> NaN \<Longrightarrow> b \<noteq> NaN \<Longrightarrow> \<not> a < b \<Longrightarrow> b \<le> (a::num)"
  by (cases a; cases b) (auto simp: less_eq_num_def)

lemma less_imp_le_num: "a < b \<Longrightarrow> a \<le> (b::num)"
  by (simp add: less_eq_num_def)

lemma between_Fin:
  assumes "Fin l \<le> a" and "a \<le> Fin u"
  shows "\<exists>r. a = Fin r \<and> l \<le> r \<and> r \<le> u"
  using assms by (cases a) (auto simp: less_eq_num_def)

subsection \<open>Rounding to a 32-bit float\<close>

lemma rne_of_int [simp]: "rne (of_int k) = k"
  by (simp add: rne_def)

lemma rne_mono:
  assumes "p \<le> q"
  shows "rne p \<le> rne q"
proof (cases "\<lfloor>p\<rfloor> = \<lfloor>q\<rfloor>")
  case True
  then have "p - of_int \<lfloor>p\<rfloor> \<le> q - of_int \<lfloor>q\<rfloor>" using assms by simp
  then show ?thesis using True by (auto simp: rne_def Let_def)
next
  case False
  then have "\<lfloor>p\<rfloor> < \<lfloor>q\<rfloor>" using floor_mono[OF assms] by linarith
  moreover have "rne p \<le> \<lfloor>p\<rfloor> + 1" by (auto simp: rne_def Let_def)
  moreover have "\<lfloor>q\<rfloor> \<le> rne q" by (auto simp: rne_def Let_def)
  ultimately show ?thesis by linarith
qed

lemma rne_uminus: "rne (- q) = - rne q"
proof (cases "q \<in> \<int>")
  case True
  then obtain k where "q = of_int k" by (auto elim: Ints_cases)
  then have "- q = of_int (- k)" by simp
  then show ?thesis unfolding \<open>q = of_int k\<close> by (simp only: rne_of_int)
next
  case False
  then have "q \<noteq> of_int \<lfloor>q\<rfloor>" by (metis Ints_of_int)
  then have f: "\<lfloor>- q\<rfloor> = - \<lfloor>q\<rfloor> - 1"
    by (simp add: floor_minus ceiling_altdef)
  have r: "- q - of_int \<lfloor>- q\<rfloor> = 1 - (q - of_int \<lfloor>q\<rfloor>)" unfolding f by simp
  show ?thesis
    unfolding rne_def Let_def r unfolding f by auto
qed

lemma rne_err: "\<bar>of_int (rne q) - q\<bar> \<le> 1 / 2"
proof -
  have "of_int \<lfloor>q\<rfloor> \<le> q" "q < of_int \<lfloor>q\<rfloor> + 1" by linarith+
  then show ?thesis by (auto simp: rne_def Let_def abs_le_iff)
qed

lemma rne_zero [simp]: "rne 0 = 0"
  by (simp add: rne_def)

lemma rne_nonneg: "0 \<le> q \<Longrightarrow> 0 \<le> rne q"
  using rne_mono[of 0 q] by simp

lemma ulp_search_spec:
  assumes "0 < u"
  shows "\<exists>k\<le>n. ulp_search n u a = u * 2 ^ k
       \<and> (k < n \<longrightarrow> a < ulp_search n u a * 2 ^ 24)
       \<and> (0 < k \<longrightarrow> ulp_search n u a * 2 ^ 23 \<le> a)"
  using assms
proof (induction n arbitrary: u)
  case 0
  then show ?case by simp
next
  case (Suc n)
  show ?case
  proof (cases "a < u * 2 ^ 24")
    case True
    then show ?thesis by (intro exI[of _ 0]) simp
  next
    case False
    have u2: "0 < 2 * u" using Suc.prems by simp
    obtain k where k: "k \<le> n" "ulp_search n (2 * u) a = 2 * u * 2 ^ k"
      "k < n \<longrightarrow> a < ulp_search n (2 * u) a * 2 ^ 24"
      "0 < k \<longrightarrow> ulp_search n (2 * u) a * 2 ^ 23 \<le> a"
      using Suc.IH[OF u2] by blast
    have low: "ulp_search n (2 * u) a * 2 ^ 23 \<le> a"
    proof (cases "0 < k")
      case True
      then show ?thesis using k(4) by simp
    next
      case False
      then have "ulp_search n (2 * u) a = 2 * u" using k(2) by simp
      then show ?thesis using \<open>\<not> a < u * 2 ^ 24\<close> by simp
    qed
    show ?thesis
      using False k low by (intro exI[of _ "Suc k"]) simp
  qed
qed

lemma binade_ex: "\<exists>k. binade a k"
proof -
  have "(0::real) < 1 / 2 ^ 149" by simp
  then have "\<exists>k\<le>253. ulp_search 253 (1 / 2 ^ 149) \<bar>a\<bar> = 1 / 2 ^ 149 * 2 ^ k
       \<and> (k < 253 \<longrightarrow> \<bar>a\<bar> < ulp_search 253 (1 / 2 ^ 149) \<bar>a\<bar> * 2 ^ 24)
       \<and> (0 < k \<longrightarrow> ulp_search 253 (1 / 2 ^ 149) \<bar>a\<bar> * 2 ^ 23 \<le> \<bar>a\<bar>)"
    by (rule ulp_search_spec)
  then obtain k where kk: "k \<le> 253 \<and> ulp32 a = 1 / 2 ^ 149 * 2 ^ k
       \<and> (k < 253 \<longrightarrow> \<bar>a\<bar> < ulp32 a * 2 ^ 24)
       \<and> (0 < k \<longrightarrow> ulp32 a * 2 ^ 23 \<le> \<bar>a\<bar>)"
    unfolding ulp32_def ..
  have e: "1 / 2 ^ 149 * 2 ^ k = (2::real) ^ k / 2 ^ 149"
    by (simp only: times_divide_eq_left mult_1)
  have "binade a k" unfolding binade_def using kk unfolding e .
  then show ?thesis ..
qed

lemma binadeD:
  assumes "binade a k"
  shows "k \<le> 253" and "ulp32 a = 2 ^ k / 2 ^ 149"
    and "k < 253 \<Longrightarrow> \<bar>a\<bar> < ulp32 a * 2 ^ 24" and "0 < k \<Longrightarrow> ulp32 a * 2 ^ 23 \<le> \<bar>a\<bar>"
  using assms unfolding binade_def by blast+

lemma ulp32_pos: "0 < ulp32 a"
proof -
  obtain k where "binade a k" using binade_ex ..
  then have e: "ulp32 a = 2 ^ k / 2 ^ 149" by (rule binadeD)
  have "0 < (2::real) ^ k / 2 ^ 149" by (intro divide_pos_pos zero_less_power) simp_all
  then show ?thesis unfolding e .
qed

lemma ulp32_uminus [simp]: "ulp32 (- a) = ulp32 a"
  by (simp add: ulp32_def)

lemma round32_uminus: "round32 (- a) = - round32 a"
  by (simp add: round32_def rne_uminus)

lemma round32_nonneg: "0 \<le> a \<Longrightarrow> 0 \<le> round32 a"
  using ulp32_pos[of a] by (simp add: round32_def rne_nonneg)

lemma round32_mono_pos:
  assumes "0 \<le> a" and "a \<le> b"
  shows "round32 a \<le> round32 b"
proof -
  obtain ka where "binade a ka" using binade_ex ..
  note ka = binadeD[OF this]
  obtain kb where "binade b kb" using binade_ex ..
  note kb = binadeD[OF this]
  have ab: "\<bar>a\<bar> = a" "\<bar>b\<bar> = b" using assms by simp_all
  have le: "ka \<le> kb"
  proof (rule ccontr)
    assume "\<not> ka \<le> kb"
    then have lt: "kb < ka" by simp
    then have "ulp32 a * 2 ^ 23 \<le> a" "b < ulp32 b * 2 ^ 24" using ka(1,4) kb(3) ab by simp_all
    then have "ulp32 a * 2 ^ 23 < ulp32 b * 2 ^ 24" using assms(2) by linarith
    then have "(2::real) ^ (ka + 23) < 2 ^ (kb + 24)"
      unfolding ka(2) kb(2) by (simp add: power_add field_simps)
    then have "ka + 23 < kb + 24" by (simp only: power_strict_increasing_iff)
    then show False using lt by simp
  qed
  show ?thesis
  proof (cases "ka = kb")
    case True
    then have u: "ulp32 a = ulp32 b" using ka(2) kb(2) by simp
    have "a / ulp32 b \<le> b / ulp32 b" using assms(2) ulp32_pos[of b] by (simp add: divide_right_mono)
    then have "rne (a / ulp32 b) \<le> rne (b / ulp32 b)" by (rule rne_mono)
    then show ?thesis using ulp32_pos[of b] by (simp add: round32_def u mult_right_mono)
  next
    case False
    then have lt: "ka < kb" using le by simp
    have "a < ulp32 a * 2 ^ 24" using ka(3) lt kb(1) ab by simp
    then have "a / ulp32 a \<le> of_int (2 ^ 24)" using ulp32_pos[of a] by (simp add: field_simps)
    then have "rne (a / ulp32 a) \<le> rne (of_int (2 ^ 24))" by (rule rne_mono)
    then have "rne (a / ulp32 a) \<le> 2 ^ 24" by (simp only: rne_of_int)
    then have "real_of_int (rne (a / ulp32 a)) \<le> real_of_int (2 ^ 24)" by (simp only: of_int_le_iff)
    then have "real_of_int (rne (a / ulp32 a)) \<le> 2 ^ 24" by simp
    then have 1: "round32 a \<le> 2 ^ 24 * ulp32 a"
      using ulp32_pos[of a] by (simp add: round32_def mult_right_mono)
    have "(2::real) ^ (ka + 1) \<le> 2 ^ kb" using lt by (intro power_increasing) simp_all
    then have 2: "2 ^ 24 * ulp32 a \<le> 2 ^ 23 * ulp32 b"
      unfolding ka(2) kb(2) by (simp add: field_simps)
    have "ulp32 b * 2 ^ 23 \<le> b" using kb(4) lt ab by simp
    then have "of_int (2 ^ 23) \<le> b / ulp32 b" using ulp32_pos[of b] by (simp add: field_simps)
    then have "rne (of_int (2 ^ 23)) \<le> rne (b / ulp32 b)" by (rule rne_mono)
    then have "2 ^ 23 \<le> rne (b / ulp32 b)" by (simp only: rne_of_int)
    then have "real_of_int (2 ^ 23) \<le> real_of_int (rne (b / ulp32 b))" by (simp only: of_int_le_iff)
    then have "2 ^ 23 \<le> real_of_int (rne (b / ulp32 b))" by simp
    then have 3: "2 ^ 23 * ulp32 b \<le> round32 b"
      using ulp32_pos[of b] by (simp add: round32_def mult_right_mono)
    show ?thesis using 1 2 3 by linarith
  qed
qed

lemma round32_mono:
  assumes "a \<le> b"
  shows "round32 a \<le> round32 b"
proof (cases "0 \<le> a")
  case True
  then show ?thesis using assms by (rule round32_mono_pos)
next
  case False
  show ?thesis
  proof (cases "0 \<le> b")
    case True
    have "round32 (- a) \<ge> 0" using False by (intro round32_nonneg) simp
    then have "round32 a \<le> 0" by (simp add: round32_uminus)
    then show ?thesis using round32_nonneg[OF True] by linarith
  next
    case b: False
    have "round32 (- b) \<le> round32 (- a)" using assms b by (intro round32_mono_pos) simp_all
    then show ?thesis by (simp add: round32_uminus)
  qed
qed


lemma round32_exact:
  assumes "a / ulp32 a = of_int m"
  shows "round32 a = a"
proof -
  have "round32 a = a / ulp32 a * ulp32 a"
    unfolding round32_def assms by (simp only: rne_of_int)
  then show ?thesis using ulp32_pos[of a] by simp
qed

lemma round32_idem_pos:
  assumes "0 \<le> a"
  shows "round32 (round32 a) = round32 a"
proof -
  define m where "m = rne (a / ulp32 a)"
  define r where "r = round32 a"
  have r: "r = of_int m * ulp32 a" by (simp add: r_def m_def round32_def)
  have r0: "0 \<le> r" unfolding r_def using assms by (rule round32_nonneg)
  obtain ka where "binade a ka" using binade_ex ..
  note ka = binadeD[OF this]
  obtain kr where "binade r kr" using binade_ex ..
  note kr = binadeD[OF this]
  have "\<exists>n. r / ulp32 r = of_int n"
  proof (cases "kr \<le> ka")
    case True
    then have "(2::real) ^ ka = 2 ^ kr * 2 ^ (ka - kr)" by (simp flip: power_add)
    then have eq: "ulp32 a = ulp32 r * 2 ^ (ka - kr)" unfolding ka(2) kr(2) by simp
    have g: "x = c * V \<Longrightarrow> V = U * p \<Longrightarrow> 0 < U \<Longrightarrow> x / U = c * p" for x c U V p :: real
      by simp
    have "r / ulp32 r = of_int m * 2 ^ (ka - kr)"
      by (rule g[OF r eq ulp32_pos])
    also have "\<dots> = of_int (m * 2 ^ (ka - kr))" by simp
    finally show ?thesis by blast
  next
    case False
    then have lt: "ka < kr" by simp
    have "a < ulp32 a * 2 ^ 24" using ka(3) lt kr(1) assms by simp
    then have "a / ulp32 a \<le> of_int (2 ^ 24)" using ulp32_pos[of a] by (simp add: field_simps)
    then have "rne (a / ulp32 a) \<le> rne (of_int (2 ^ 24))" by (rule rne_mono)
    then have "m \<le> 2 ^ 24" unfolding m_def by (simp only: rne_of_int)
    then have "real_of_int m \<le> real_of_int (2 ^ 24)" by (simp only: of_int_le_iff)
    then have "real_of_int m \<le> 2 ^ 24" by simp
    then have up: "r \<le> 2 ^ 24 * ulp32 a" unfolding r using ulp32_pos[of a] by (simp add: mult_right_mono)
    have low: "ulp32 r * 2 ^ 23 \<le> r" using kr(4) lt r0 by simp
    have "(2::real) ^ (ka + 1) \<le> 2 ^ kr" using lt by (intro power_increasing) simp_all
    then have big: "2 * ulp32 a \<le> ulp32 r" unfolding ka(2) kr(2) by (simp add: field_simps)
    have g: "x \<le> 2 ^ 24 * V \<Longrightarrow> U * 2 ^ 23 \<le> x \<Longrightarrow> 2 * V \<le> U \<Longrightarrow> 0 < V
        \<Longrightarrow> x / U = of_int (2 ^ 23)" for x U V :: real
      by (simp add: field_simps)
    have "r / ulp32 r = of_int (2 ^ 23)"
      by (rule g[OF up low big ulp32_pos])
    then show ?thesis by blast
  qed
  then obtain n where "r / ulp32 r = of_int n" ..
  then have "round32 r = r" by (rule round32_exact)
  then show ?thesis unfolding r_def .
qed

lemma round32_idem: "round32 (round32 a) = round32 a"
proof (cases "0 \<le> a")
  case True
  then show ?thesis by (rule round32_idem_pos)
next
  case False
  then have "round32 (round32 (- a)) = round32 (- a)" by (intro round32_idem_pos) simp
  then show ?thesis by (simp add: round32_uminus)
qed

lemma round32_err: "\<bar>round32 a - a\<bar> \<le> \<bar>a\<bar> / 2 ^ 24 + 1 / 2 ^ 150"
proof -
  obtain k where "binade a k" using binade_ex ..
  note k = binadeD[OF this]
  have u: "0 < ulp32 a" by (rule ulp32_pos)
  have "round32 a - a = (of_int (rne (a / ulp32 a)) - a / ulp32 a) * ulp32 a"
    using u by (simp add: round32_def field_simps)
  then have "\<bar>round32 a - a\<bar> = \<bar>of_int (rne (a / ulp32 a)) - a / ulp32 a\<bar> * ulp32 a"
    using u by (simp add: abs_mult)
  also have "\<dots> \<le> 1 / 2 * ulp32 a"
    using rne_err[of "a / ulp32 a"] u by (intro mult_right_mono) simp_all
  finally have h: "\<bar>round32 a - a\<bar> \<le> ulp32 a / 2" by simp
  show ?thesis
  proof (cases "0 < k")
    case True
    then have "ulp32 a * 2 ^ 23 \<le> \<bar>a\<bar>" by (rule k(4))
    then have "ulp32 a / 2 \<le> \<bar>a\<bar> / 2 ^ 24" by simp
    then show ?thesis using h by simp
  next
    case False
    then have "ulp32 a = 1 / 2 ^ 149" using k(2) by simp
    then have "ulp32 a / 2 = 1 / 2 ^ 150" by simp
    then have "\<bar>round32 a - a\<bar> \<le> 1 / 2 ^ 150" using h by (simp only:)
    moreover have "0 \<le> \<bar>a\<bar> / 2 ^ 24" by simp
    ultimately show ?thesis by linarith
  qed
qed


lemma ulp_search_skip:
  assumes "u * 2 ^ k * 2 ^ 23 \<le> a" and "0 < u"
  shows "ulp_search (n + k) u a = ulp_search n (u * 2 ^ k) a"
  using assms
proof (induction k arbitrary: u)
  case 0
  then show ?case by simp
next
  case (Suc k)
  have "(1::real) \<le> 2 ^ k" by simp
  then have "u * 2 ^ 24 \<le> u * 2 ^ Suc k * 2 ^ 23" using Suc.prems(2) by simp
  then have n: "\<not> a < u * 2 ^ 24" using Suc.prems(1) by linarith
  have "2 * u * 2 ^ k * 2 ^ 23 \<le> a" using Suc.prems(1) by (simp add: mult_ac)
  then have "ulp_search (n + k) (2 * u) a = ulp_search n (2 * u * 2 ^ k) a"
    using Suc.prems(2) by (intro Suc.IH) simp_all
  then show ?case using n by (simp add: mult_ac)
qed

lemma ulp_search_numeral:
  "ulp_search (numeral k) u a = (if a < u * 2 ^ 24 then u else ulp_search (pred_numeral k) (2 * u) a)"
  by (simp add: numeral_eq_Suc)

lemma ulp32_eval:
  "ulp32 a = (if 1 \<le> \<bar>a\<bar> then ulp_search 127 (1 / 2 ^ 23) \<bar>a\<bar>
              else if 1 / 2 ^ 24 \<le> \<bar>a\<bar> then ulp_search 151 (1 / 2 ^ 47) \<bar>a\<bar>
              else ulp_search 253 (1 / 2 ^ 149) \<bar>a\<bar>)"
proof -
  have 1: "ulp_search 253 (1 / 2 ^ 149) \<bar>a\<bar> = ulp_search 127 (1 / 2 ^ 23) \<bar>a\<bar>" if "1 \<le> \<bar>a\<bar>"
    using ulp_search_skip[of "1 / 2 ^ 149" 126 "\<bar>a\<bar>" 127] that by simp
  have 2: "ulp_search 253 (1 / 2 ^ 149) \<bar>a\<bar> = ulp_search 151 (1 / 2 ^ 47) \<bar>a\<bar>" if "1 / 2 ^ 24 \<le> \<bar>a\<bar>"
    using ulp_search_skip[of "1 / 2 ^ 149" 102 "\<bar>a\<bar>" 151] that by simp
  show ?thesis using 1 2 by (simp add: ulp32_def)
qed

lemmas f32_eval = fround.simps(1) round32_def rne_def Let_def ulp32_eval ulp_search_numeral

lemma fround_NaN_iff [simp]: "fround a = NaN \<longleftrightarrow> a = NaN"
  by (cases a) simp_all

lemma fround_mono:
  assumes "a \<le> b"
  shows "fround a \<le> fround b"
proof (cases a)
  case (Fin x)
  show ?thesis
  proof (cases b)
    case b: (Fin y)
    have "round32 x \<le> round32 y" using assms Fin b by (simp add: round32_mono)
    then show ?thesis using Fin b by (auto simp: less_eq_num_def)
  next
    case PInf
    then show ?thesis using Fin by (simp add: less_eq_num_def)
  next
    case NInf
    then show ?thesis using assms Fin by (simp add: less_eq_num_def)
  next
    case NaN
    then show ?thesis using assms Fin by (simp add: less_eq_num_def)
  qed
next
  case PInf
  then show ?thesis using assms by (cases b) (simp_all add: less_eq_num_def)
next
  case NInf
  then show ?thesis using assms by (cases b) (simp_all add: less_eq_num_def)
next
  case NaN
  then show ?thesis using assms by (simp add: less_eq_num_def)
qed

lemma fround_idem [simp]: "fround (fround a) = fround a"
  by (cases a) (simp_all add: round32_idem)

lemma is_float32_fround [simp]: "is_float32 (fround a)"
  by (simp add: is_float32_def)

lemma round32_near:
  assumes "\<bar>a\<bar> \<le> 2 ^ 127"
  shows "\<bar>round32 a\<bar> < 2 ^ 128"
proof -
  have "\<bar>round32 a\<bar> \<le> \<bar>a\<bar> + \<bar>round32 a - a\<bar>" by simp
  also have "\<dots> \<le> \<bar>a\<bar> + (\<bar>a\<bar> / 2 ^ 24 + 1 / 2 ^ 150)" using round32_err[of a] by simp
  also have "\<dots> \<le> 2 ^ 127 + (2 ^ 127 / 2 ^ 24 + 1 / 2 ^ 150)"
    using assms by (intro add_mono divide_right_mono) simp_all
  also have "\<dots> < 2 ^ 128" by simp
  finally show ?thesis .
qed

lemma fround_Fin_err:
  assumes "\<bar>a\<bar> \<le> 2 ^ 127"
  shows "fround (Fin a) = Fin (round32 a)" and "\<bar>round32 a - a\<bar> \<le> \<bar>a\<bar> / 2 ^ 24 + 1 / 2 ^ 150"
  using round32_near[OF assms] round32_err[of a] by (simp_all add: abs_less_iff)

lemma fround_consts [simp]:
  "fround (Fin 0) = Fin 0" "fround MAX_VEL = MAX_VEL" "fround (- MAX_VEL) = - MAX_VEL"
  by (simp_all add: MAX_VEL_def f32_eval)

declare fround.simps(1) [simp del]

subsection \<open>Typed arrays\<close>

lemma length_wr [simp]: "length (wr xs k v) = length xs"
  by (simp add: wr_def)

lemma rd_wr:
  "rd (wr xs k v) k' = (if k' = k \<and> 0 \<le> k \<and> k < int (length xs) then fround v else rd xs k')"
  by (auto simp: rd_def wr_def nat_eq_iff)

lemma rd_wr_other: "k' \<noteq> k \<Longrightarrow> rd (wr xs k v) k' = rd xs k'"
  by (simp add: rd_wr)

lemma rd_wr_in: "0 \<le> k \<Longrightarrow> k < int (length xs) \<Longrightarrow> rd (wr xs k v) k = fround v"
  by (simp add: rd_wr)

lemma rd_range: "isFinite (rd xs k) \<Longrightarrow> 0 \<le> k \<and> k < int (length xs)"
  by (auto simp: rd_def split: if_splits)

lemma rd_Fin_range: "rd xs k = Fin r \<Longrightarrow> 0 \<le> k \<and> k < int (length xs)"
  by (auto simp: rd_def split: if_splits)

lemma rd_wr_at: "rd xs k = Fin r \<Longrightarrow> rd (wr xs k v) k = fround v"
  by (auto simp: rd_def wr_def split: if_splits)

lemma wr_eq_update: "0 \<le> k \<Longrightarrow> k < int (length xs) \<Longrightarrow> wr xs k v = xs[nat k := fround v]"
  by (simp add: wr_def)

subsection \<open>Resolving one pair\<close>

lemma positional_correction_vel [simp]:
  "pvx (positional_correction i j nx ny ov s) = pvx s"
  "pvy (positional_correction i j nx ny ov s) = pvy s"
  "pradius (positional_correction i j nx ny ov s) = pradius s"
  by (simp_all add: positional_correction_def Let_def)

lemma velocity_response_pos [simp]:
  "px (velocity_response i j nx ny s) = px s"
  "py (velocity_response i j nx ny s) = py s"
  "pradius (velocity_response i j nx ny s) = pradius s"
  by (simp_all add: velocity_response_def Let_def)

lemma positional_correction_at:
  fixes nx ny ov :: real
  assumes "rd (px s) (int i) = Fin xi" "rd (py s) (int i) = Fin yi"
    "rd (px s) k = Fin xk" "rd (py s) k = Fin yk" "k \<noteq> int i"
  defines "s' \<equiv> positional_correction i (Some k) (Fin nx) (Fin ny) (Fin ov) s"
  shows "rd (px s') (int i) = fround (Fin (xi + nx * ov * 0.5))"
    and "rd (py s') (int i) = fround (Fin (yi + ny * ov * 0.5))"
    and "rd (px s') k = fround (Fin (xk - nx * ov * 0.5))"
    and "rd (py s') k = fround (Fin (yk - ny * ov * 0.5))"
proof -
  have r: "0 \<le> int i \<and> int i < int (length (px s))" "0 \<le> k \<and> k < int (length (px s))"
     "0 \<le> int i \<and> int i < int (length (py s))" "0 \<le> k \<and> k < int (length (py s))"
    using assms(1-4) by (blast dest: rd_Fin_range)+
  show "rd (px s') (int i) = fround (Fin (xi + nx * ov * 0.5))"
    using assms(1-5) r by (simp add: s'_def positional_correction_def Let_def rd_wr)
  show "rd (py s') (int i) = fround (Fin (yi + ny * ov * 0.5))"
    using assms(1-5) r by (simp add: s'_def positional_correction_def Let_def rd_wr)
  show "rd (px s') k = fround (Fin (xk - nx * ov * 0.5))"
    using assms(1-5) r by (simp add: s'_def positional_correction_def Let_def rd_wr)
  show "rd (py s') k = fround (Fin (yk - ny * ov * 0.5))"
    using assms(1-5) r by (simp add: s'_def positional_correction_def Let_def rd_wr)
qed

lemma velocity_response_at:
  fixes nx ny :: real
  assumes "rd (pvx s) (int i) = Fin ui" "rd (pvy s) (int i) = Fin vi"
    "rd (pvx s) k = Fin uk" "rd (pvy s) k = Fin vk" "k \<noteq> int i"
  defines "s' \<equiv> velocity_response i (Some k) (Fin nx) (Fin ny) s"
    and "dot \<equiv> (ui - uk) * nx + (vi - vk) * ny"
  shows "dot < 0 \<Longrightarrow> rd (pvx s') (int i) = fround (Fin (ui - nx * dot * 0.5))"
    and "dot < 0 \<Longrightarrow> rd (pvy s') (int i) = fround (Fin (vi - ny * dot * 0.5))"
    and "dot < 0 \<Longrightarrow> rd (pvx s') k = fround (Fin (uk + nx * dot * 0.5))"
    and "dot < 0 \<Longrightarrow> rd (pvy s') k = fround (Fin (vk + ny * dot * 0.5))"
    and "\<not> dot < 0 \<Longrightarrow> s' = s"
proof -
  have r: "0 \<le> int i \<and> int i < int (length (pvx s))" "0 \<le> k \<and> k < int (length (pvx s))"
     "0 \<le> int i \<and> int i < int (length (pvy s))" "0 \<le> k \<and> k < int (length (pvy s))"
    using assms(1-4) by (blast dest: rd_Fin_range)+
  show "dot < 0 \<Longrightarrow> rd (pvx s') (int i) = fround (Fin (ui - nx * dot * 0.5))"
    using assms(1-5) r by (simp add: s'_def dot_def velocity_response_def Let_def rd_wr)
  show "dot < 0 \<Longrightarrow> rd (pvy s') (int i) = fround (Fin (vi - ny * dot * 0.5))"
    using assms(1-5) r by (simp add: s'_def dot_def velocity_response_def Let_def rd_wr)
  show "dot < 0 \<Longrightarrow> rd (pvx s') k = fround (Fin (uk + nx * dot * 0.5))"
    using assms(1-5) r by (simp add: s'_def dot_def velocity_response_def Let_def rd_wr)
  show "dot < 0 \<Longrightarrow> rd (pvy s') k = fround (Fin (vk + ny * dot * 0.5))"
    using assms(1-5) r by (simp add: s'_def dot_def velocity_response_def Let_def rd_wr)
  show "\<not> dot < 0 \<Longrightarrow> s' = s"
    using assms(1-4) by (simp add: s'_def dot_def velocity_response_def Let_def)
qed

lemma resolve_pair_unfold:
  assumes "rd (px s) (int i) = Fin xi" "rd (px s) k = Fin xk"
    "rd (py s) (int i) = Fin yi" "rd (py s) k = Fin yk"
    "rd (pradius s) (int i) = Fin ri" "rd (pradius s) k = Fin rk"
  defines "d2 \<equiv> (xi - xk) * (xi - xk) + (yi - yk) * (yi - yk)"
  shows "resolve_pair i (Some k) s =
     (if d2 < (ri + rk) * (ri + rk) \<and> 0.001 < d2
      then velocity_response i (Some k) (Fin ((xi - xk) / sqrt d2)) (Fin ((yi - yk) / sqrt d2))
             (positional_correction i (Some k) (Fin ((xi - xk) / sqrt d2)) (Fin ((yi - yk) / sqrt d2))
                (Fin (ri + rk - sqrt d2)) s)
      else s)"
proof (cases "d2 < (ri + rk) * (ri + rk) \<and> 0.001 < d2")
  case True
  then have "0 < d2" by simp
  then have "sqrt d2 \<noteq> 0" "\<not> d2 < 0" by simp_all
  then show ?thesis
    using True assms(1-6) by (simp add: resolve_pair_def Let_def d2_def)
next
  case False
  then show ?thesis
    using assms(1-6) by (auto simp add: resolve_pair_def Let_def d2_def)
qed


lemma resolve_pair_overlap:
  fixes xi yi xk yk ui vi uk vk ri rk :: real
  assumes p: "rd (px s) (int i) = Fin xi" "rd (py s) (int i) = Fin yi"
      "rd (px s) k = Fin xk" "rd (py s) k = Fin yk"
    and v: "rd (pvx s) (int i) = Fin ui" "rd (pvy s) (int i) = Fin vi"
      "rd (pvx s) k = Fin uk" "rd (pvy s) k = Fin vk"
    and r: "rd (pradius s) (int i) = Fin ri" "rd (pradius s) k = Fin rk"
    and ne: "k \<noteq> int i"
    and d2: "d2 = (xi - xk) * (xi - xk) + (yi - yk) * (yi - yk)"
    and n: "nx = (xi - xk) / sqrt d2" "ny = (yi - yk) / sqrt d2"
    and ov: "ov = ri + rk - sqrt d2"
    and dot: "dot = (ui - uk) * nx + (vi - vk) * ny"
    and test: "0.001 < d2" "d2 < (ri + rk) * (ri + rk)"
  shows "rd (px (resolve_pair i (Some k) s)) (int i) = fround (Fin (xi + nx * ov * 0.5))"
    and "rd (py (resolve_pair i (Some k) s)) (int i) = fround (Fin (yi + ny * ov * 0.5))"
    and "rd (px (resolve_pair i (Some k) s)) k = fround (Fin (xk - nx * ov * 0.5))"
    and "rd (py (resolve_pair i (Some k) s)) k = fround (Fin (yk - ny * ov * 0.5))"
    and "dot < 0 \<Longrightarrow> rd (pvx (resolve_pair i (Some k) s)) (int i) = fround (Fin (ui - nx * dot * 0.5))"
    and "dot < 0 \<Longrightarrow> rd (pvy (resolve_pair i (Some k) s)) (int i) = fround (Fin (vi - ny * dot * 0.5))"
    and "dot < 0 \<Longrightarrow> rd (pvx (resolve_pair i (Some k) s)) k = fround (Fin (uk + nx * dot * 0.5))"
    and "dot < 0 \<Longrightarrow> rd (pvy (resolve_pair i (Some k) s)) k = fround (Fin (vk + ny * dot * 0.5))"
    and "\<not> dot < 0 \<Longrightarrow> pvx (resolve_pair i (Some k) s) = pvx s \<and> pvy (resolve_pair i (Some k) s) = pvy s"
proof -
  define s1 where "s1 = positional_correction i (Some k) (Fin nx) (Fin ny) (Fin ov) s"
  have "resolve_pair i (Some k) s =
      (if d2 < (ri + rk) * (ri + rk) \<and> 0.001 < d2 then velocity_response i (Some k) (Fin nx) (Fin ny) s1 else s)"
    unfolding s1_def n ov d2 by (rule resolve_pair_unfold[OF p(1,3,2,4) r])
  then have rp: "resolve_pair i (Some k) s = velocity_response i (Some k) (Fin nx) (Fin ny) s1"
    using test by simp
  have v1: "rd (pvx s1) (int i) = Fin ui" "rd (pvy s1) (int i) = Fin vi"
    "rd (pvx s1) k = Fin uk" "rd (pvy s1) k = Fin vk"
    using v by (simp_all add: s1_def)
  note pc = positional_correction_at[OF p ne, where nx = nx and ny = ny and ov = ov, folded s1_def]
  note vr = velocity_response_at[OF v1 ne, where nx = nx and ny = ny, folded dot]
  show "rd (px (resolve_pair i (Some k) s)) (int i) = fround (Fin (xi + nx * ov * 0.5))"
    "rd (py (resolve_pair i (Some k) s)) (int i) = fround (Fin (yi + ny * ov * 0.5))"
    "rd (px (resolve_pair i (Some k) s)) k = fround (Fin (xk - nx * ov * 0.5))"
    "rd (py (resolve_pair i (Some k) s)) k = fround (Fin (yk - ny * ov * 0.5))"
    unfolding rp using pc by simp_all
  show "dot < 0 \<Longrightarrow> rd (pvx (resolve_pair i (Some k) s)) (int i) = fround (Fin (ui - nx * dot * 0.5))"
    "dot < 0 \<Longrightarrow> rd (pvy (resolve_pair i (Some k) s)) (int i) = fround (Fin (vi - ny * dot * 0.5))"
    "dot < 0 \<Longrightarrow> rd (pvx (resolve_pair i (Some k) s)) k = fround (Fin (uk + nx * dot * 0.5))"
    "dot < 0 \<Longrightarrow> rd (pvy (resolve_pair i (Some k) s)) k = fround (Fin (vk + ny * dot * 0.5))"
    unfolding rp using vr(1-4) by simp_all
  show "\<not> dot < 0 \<Longrightarrow> pvx (resolve_pair i (Some k) s) = pvx s \<and> pvy (resolve_pair i (Some k) s) = pvy s"
    unfolding rp using vr(5) by (simp add: s1_def)
qed

lemma resolve_pair_apart:
  fixes xi yi xk yk ri rk :: real
  assumes "rd (px s) (int i) = Fin xi" "rd (py s) (int i) = Fin yi"
      "rd (px s) k = Fin xk" "rd (py s) k = Fin yk"
    and "rd (pradius s) (int i) = Fin ri" "rd (pradius s) k = Fin rk"
    and "d2 = (xi - xk) * (xi - xk) + (yi - yk) * (yi - yk)"
    and "\<not> (0.001 < d2 \<and> d2 < (ri + rk) * (ri + rk))"
  shows "resolve_pair i (Some k) s = s"
  using resolve_pair_unfold[OF assms(1,3,2,4,5,6)] assms(7,8) by auto

lemma resolve_pair_radius [simp]: "pradius (resolve_pair i j s) = pradius s"
  by (simp add: resolve_pair_def Let_def)

lemma abs_le_sqrt_sum: "\<bar>a\<bar> \<le> sqrt (a * a + b * b)"
  by (rule real_le_rsqrt) (simp add: power2_eq_square)

lemma unit_component:
  assumes "0 < a * a + b * b"
  shows "\<bar>a / sqrt (a * a + b * b)\<bar> \<le> 1" and "\<bar>b / sqrt (a * a + b * b)\<bar> \<le> 1"
proof -
  have s: "0 < sqrt (a * a + b * b)" using assms by simp
  have "\<bar>b\<bar> \<le> sqrt (b * b + a * a)" by (rule abs_le_sqrt_sum)
  then have b: "\<bar>b\<bar> \<le> sqrt (a * a + b * b)" by (simp add: add.commute)
  show "\<bar>a / sqrt (a * a + b * b)\<bar> \<le> 1"
    using abs_le_sqrt_sum[of a b] s by (simp add: abs_divide)
  show "\<bar>b / sqrt (a * a + b * b)\<bar> \<le> 1"
    using b s by (simp add: abs_divide)
qed

lemma conserved_up_to_rounding:
  fixes a b m B :: real
  assumes "\<bar>a\<bar> \<le> B" and "\<bar>b\<bar> \<le> B" and "\<bar>m\<bar> \<le> 2 * B" and "B \<le> 2 ^ 100"
  shows "\<exists>r1 r2. fround (Fin (a + m)) = Fin r1 \<and> fround (Fin (b - m)) = Fin r2
           \<and> \<bar>(r1 + r2) - (a + b)\<bar> \<le> 6 * B / 2 ^ 24 + 1 / 2 ^ 149"
proof -
  have B: "3 * B \<le> 2 ^ 127" using assms(4) by simp
  have am: "\<bar>a + m\<bar> \<le> 3 * B" and bm: "\<bar>b - m\<bar> \<le> 3 * B" using assms(1-3) by linarith+
  have "\<bar>a + m\<bar> \<le> 2 ^ 127" "\<bar>b - m\<bar> \<le> 2 ^ 127" using am bm B by linarith+
  note e1 = fround_Fin_err[OF this(1)] and e2 = fround_Fin_err[OF this(2)]
  have "\<bar>a + m\<bar> / 2 ^ 24 \<le> 3 * B / 2 ^ 24" "\<bar>b - m\<bar> / 2 ^ 24 \<le> 3 * B / 2 ^ 24"
    using am bm by (simp_all add: divide_right_mono)
  then have "\<bar>round32 (a + m) - (a + m)\<bar> \<le> 3 * B / 2 ^ 24 + 1 / 2 ^ 150"
    "\<bar>round32 (b - m) - (b - m)\<bar> \<le> 3 * B / 2 ^ 24 + 1 / 2 ^ 150"
    using e1(2) e2(2) by linarith+
  then have "\<bar>(round32 (a + m) + round32 (b - m)) - (a + b)\<bar>
      \<le> (3 * B / 2 ^ 24 + 1 / 2 ^ 150) + (3 * B / 2 ^ 24 + 1 / 2 ^ 150)"
    by linarith
  also have "\<dots> = 6 * B / 2 ^ 24 + 1 / 2 ^ 149" by simp
  finally show ?thesis using e1(1) e2(1) by blast
qed

lemma less_le_twice: "x < y \<Longrightarrow> z \<le> y + x \<Longrightarrow> z \<le> 2 * y" for x y z :: real
  by linarith

lemma twice_sum_le: "a \<le> 2 * b \<Longrightarrow> b \<le> c + d \<Longrightarrow> c \<le> P \<Longrightarrow> d \<le> P \<Longrightarrow> a \<le> 4 * P"
  for a b c d P :: real
  by linarith

lemma sum_le_four: "a \<le> b + c \<Longrightarrow> b \<le> 2 * V * 1 \<Longrightarrow> c \<le> 2 * V * 1 \<Longrightarrow> a \<le> 4 * V"
  for a b c V :: real
  by linarith

lemma half_bound: "\<bar>t\<bar> \<le> 2 * E \<Longrightarrow> \<bar>t / 2\<bar> \<le> E" for t E :: real
  by simp

lemma magnitude_withinD:
  assumes "magnitude_within M a"
  shows "\<exists>r. a = Fin r \<and> \<bar>r\<bar> \<le> M"
proof -
  obtain r where "a = Fin r" "- M \<le> r" "r \<le> M"
    using between_Fin[of "- M" a M] assms unfolding magnitude_within_def by blast
  then show ?thesis by (intro exI[of _ r]) (simp add: abs_le_iff)
qed

text \<open>
  C9 (as amended). Resolving a pair of distinct particles whose positions and radii are
  at most \<open>P\<close> and whose velocity components are at most \<open>V\<close> in magnitude (both at
  most \<open>2^100\<close>) leaves all their attributes finite and keeps the sums \<open>vx_i + vx_j\<close>
  and \<open>vy_i + vy_j\<close> and the midpoint of the two positions up to the rounding of the
  stores: each velocity sum changes by at most \<open>6 V / 2^24 + 2^-149\<close>, each coordinate
  of the midpoint by at most \<open>3 P / 2^24 + 2^-150\<close>. The two particles receive opposite
  increments; each of the four stores rounds its own result to a 32-bit float.
\<close>

theorem pair_conservation:
  assumes wi: "particle_within P V s (int i)" and wk: "particle_within P V s k"
    and ne: "k \<noteq> int i" and PV: "P \<le> 2 ^ 100" "V \<le> 2 ^ 100"
  shows "finite_particle (resolve_pair i (Some k) s) (int i)
       \<and> finite_particle (resolve_pair i (Some k) s) k
       \<and> \<bar>val (rd (pvx (resolve_pair i (Some k) s)) (int i) + rd (pvx (resolve_pair i (Some k) s)) k)
            - val (rd (pvx s) (int i) + rd (pvx s) k)\<bar> \<le> 6 * V / 2 ^ 24 + 1 / 2 ^ 149
       \<and> \<bar>val (rd (pvy (resolve_pair i (Some k) s)) (int i) + rd (pvy (resolve_pair i (Some k) s)) k)
            - val (rd (pvy s) (int i) + rd (pvy s) k)\<bar> \<le> 6 * V / 2 ^ 24 + 1 / 2 ^ 149
       \<and> \<bar>val ((rd (px (resolve_pair i (Some k) s)) (int i) + rd (px (resolve_pair i (Some k) s)) k) / Fin 2)
            - val ((rd (px s) (int i) + rd (px s) k) / Fin 2)\<bar> \<le> 3 * P / 2 ^ 24 + 1 / 2 ^ 150
       \<and> \<bar>val ((rd (py (resolve_pair i (Some k) s)) (int i) + rd (py (resolve_pair i (Some k) s)) k) / Fin 2)
            - val ((rd (py s) (int i) + rd (py s) k) / Fin 2)\<bar> \<le> 3 * P / 2 ^ 24 + 1 / 2 ^ 150"
proof -
  obtain xi yi ri ui vi where i:
    "rd (px s) (int i) = Fin xi" "rd (py s) (int i) = Fin yi" "rd (pradius s) (int i) = Fin ri"
    "rd (pvx s) (int i) = Fin ui" "rd (pvy s) (int i) = Fin vi"
    and bi: "\<bar>xi\<bar> \<le> P" "\<bar>yi\<bar> \<le> P" "\<bar>ri\<bar> \<le> P" "\<bar>ui\<bar> \<le> V" "\<bar>vi\<bar> \<le> V"
    using wi unfolding particle_within_def by (blast dest: magnitude_withinD)
  obtain xk yk rk uk vk where k:
    "rd (px s) k = Fin xk" "rd (py s) k = Fin yk" "rd (pradius s) k = Fin rk"
    "rd (pvx s) k = Fin uk" "rd (pvy s) k = Fin vk"
    and bk: "\<bar>xk\<bar> \<le> P" "\<bar>yk\<bar> \<le> P" "\<bar>rk\<bar> \<le> P" "\<bar>uk\<bar> \<le> V" "\<bar>vk\<bar> \<le> V"
    using wk unfolding particle_within_def by (blast dest: magnitude_withinD)
  have P0: "0 \<le> P" and V0: "0 \<le> V" using bi(1,4) by linarith+
  define s' where "s' = resolve_pair i (Some k) s"
  define d2 where "d2 = (xi - xk) * (xi - xk) + (yi - yk) * (yi - yk)"
  define nx where "nx = (xi - xk) / sqrt d2"
  define ny where "ny = (yi - yk) / sqrt d2"
  define ov where "ov = ri + rk - sqrt d2"
  define dot where "dot = (ui - uk) * nx + (vi - vk) * ny"
  have rad: "rd (pradius s') (int i) = Fin ri" "rd (pradius s') k = Fin rk"
    using i(3) k(3) by (simp_all add: s'_def)
  have goal: "finite_particle s' (int i) \<and> finite_particle s' k
       \<and> \<bar>val (rd (pvx s') (int i) + rd (pvx s') k) - val (rd (pvx s) (int i) + rd (pvx s) k)\<bar>
            \<le> 6 * V / 2 ^ 24 + 1 / 2 ^ 149
       \<and> \<bar>val (rd (pvy s') (int i) + rd (pvy s') k) - val (rd (pvy s) (int i) + rd (pvy s) k)\<bar>
            \<le> 6 * V / 2 ^ 24 + 1 / 2 ^ 149
       \<and> \<bar>val ((rd (px s') (int i) + rd (px s') k) / Fin 2) - val ((rd (px s) (int i) + rd (px s) k) / Fin 2)\<bar>
            \<le> 3 * P / 2 ^ 24 + 1 / 2 ^ 150
       \<and> \<bar>val ((rd (py s') (int i) + rd (py s') k) / Fin 2) - val ((rd (py s) (int i) + rd (py s) k) / Fin 2)\<bar>
            \<le> 3 * P / 2 ^ 24 + 1 / 2 ^ 150"
  proof (cases "0.001 < d2 \<and> d2 < (ri + rk) * (ri + rk)")
    case False
    have "s' = s"
      unfolding s'_def by (rule resolve_pair_apart[OF i(1,2) k(1,2) i(3) k(3) d2_def False])
    then show ?thesis
      using i k P0 V0 by (simp add: finite_particle_def)
  next
    case True
    then have test: "0.001 < d2" "d2 < (ri + rk) * (ri + rk)" by simp_all
    note rp = resolve_pair_overlap[OF i(1,2) k(1,2) i(4,5) k(4,5) i(3) k(3) ne d2_def nx_def ny_def
        ov_def dot_def test, folded s'_def]
    have pos: "0 < (xi - xk) * (xi - xk) + (yi - yk) * (yi - yk)" using test(1) d2_def by simp
    have n1: "\<bar>nx\<bar> \<le> 1" "\<bar>ny\<bar> \<le> 1"
      unfolding nx_def ny_def d2_def by (rule unit_component[OF pos])+
    have dist: "sqrt d2 < \<bar>ri + rk\<bar>" using real_sqrt_less_mono[OF test(2)] by simp
    have "0 \<le> sqrt d2" using test(1) by simp
    then have "\<bar>sqrt d2\<bar> < \<bar>ri + rk\<bar>" using dist by simp
    moreover have "\<bar>ri + rk - sqrt d2\<bar> \<le> \<bar>ri + rk\<bar> + \<bar>sqrt d2\<bar>" by (rule abs_triangle_ineq4)
    ultimately have "\<bar>ov\<bar> \<le> 2 * \<bar>ri + rk\<bar>" unfolding ov_def by (rule less_le_twice)
    then have ovb: "\<bar>ov\<bar> \<le> 4 * P"
      by (rule twice_sum_le[OF _ abs_triangle_ineq bi(3) bk(3)])
    have prod: "\<bar>n * c * 0.5\<bar> \<le> 2 * B" if "\<bar>n\<bar> \<le> 1" "\<bar>c\<bar> \<le> 4 * B" for n c B :: real
    proof -
      have "\<bar>n\<bar> * \<bar>c\<bar> \<le> 1 * (4 * B)"
        using that by (intro mult_mono) simp_all
      then show ?thesis by (simp add: abs_mult)
    qed
    obtain x1 x2 where x: "fround (Fin (xi + nx * ov * 0.5)) = Fin x1"
      "fround (Fin (xk - nx * ov * 0.5)) = Fin x2"
      "\<bar>(x1 + x2) - (xi + xk)\<bar> \<le> 6 * P / 2 ^ 24 + 1 / 2 ^ 149"
      using conserved_up_to_rounding[OF bi(1) bk(1) prod[OF n1(1) ovb] PV(1)] by blast
    obtain y1 y2 where y: "fround (Fin (yi + ny * ov * 0.5)) = Fin y1"
      "fround (Fin (yk - ny * ov * 0.5)) = Fin y2"
      "\<bar>(y1 + y2) - (yi + yk)\<bar> \<le> 6 * P / 2 ^ 24 + 1 / 2 ^ 149"
      using conserved_up_to_rounding[OF bi(2) bk(2) prod[OF n1(2) ovb] PV(1)] by blast
    have px': "rd (px s') (int i) = Fin x1" "rd (px s') k = Fin x2"
      and py': "rd (py s') (int i) = Fin y1" "rd (py s') k = Fin y2"
      using rp(1-4) x(1,2) y(1,2) by simp_all
    have half: "\<bar>(a + b) / 2 - (c + d) / 2\<bar> \<le> 3 * P / 2 ^ 24 + 1 / 2 ^ 150"
      if "\<bar>(a + b) - (c + d)\<bar> \<le> 6 * P / 2 ^ 24 + 1 / 2 ^ 149" for a b c d :: real
    proof -
      have "6 * P / 2 ^ 24 + 1 / 2 ^ 149 = 2 * (3 * P / 2 ^ 24 + 1 / 2 ^ 150)" by simp
      then have "\<bar>(a + b) - (c + d)\<bar> \<le> 2 * (3 * P / 2 ^ 24 + 1 / 2 ^ 150)" using that by (simp only:)
      then have "\<bar>((a + b) - (c + d)) / 2\<bar> \<le> 3 * P / 2 ^ 24 + 1 / 2 ^ 150" by (rule half_bound)
      then show ?thesis by (simp only: diff_divide_distrib)
    qed
    have mid: "\<bar>val ((rd (px s') (int i) + rd (px s') k) / Fin 2) - val ((rd (px s) (int i) + rd (px s) k) / Fin 2)\<bar>
            \<le> 3 * P / 2 ^ 24 + 1 / 2 ^ 150"
      "\<bar>val ((rd (py s') (int i) + rd (py s') k) / Fin 2) - val ((rd (py s) (int i) + rd (py s) k) / Fin 2)\<bar>
            \<le> 3 * P / 2 ^ 24 + 1 / 2 ^ 150"
      using half[OF x(3)] half[OF y(3)] by (simp_all add: px' py' i k)
    have vel: "(\<exists>u1 u2 v1 v2. rd (pvx s') (int i) = Fin u1 \<and> rd (pvx s') k = Fin u2
          \<and> rd (pvy s') (int i) = Fin v1 \<and> rd (pvy s') k = Fin v2
          \<and> \<bar>(u1 + u2) - (ui + uk)\<bar> \<le> 6 * V / 2 ^ 24 + 1 / 2 ^ 149
          \<and> \<bar>(v1 + v2) - (vi + vk)\<bar> \<le> 6 * V / 2 ^ 24 + 1 / 2 ^ 149)"
    proof (cases "dot < 0")
      case False
      have z: "0 \<le> 6 * V / 2 ^ 24 + 1 / 2 ^ 149" using V0 by simp
      have "pvx s' = pvx s" "pvy s' = pvy s" using rp(9)[OF False] by simp_all
      then show ?thesis using i(4,5) k(4,5) z by simp
    next
      case neg: True
      have du: "\<bar>ui - uk\<bar> \<le> 2 * V" "\<bar>vi - vk\<bar> \<le> 2 * V"
        using bi(4,5) bk(4,5) by linarith+
      have "\<bar>ui - uk\<bar> * \<bar>nx\<bar> \<le> 2 * V * 1" "\<bar>vi - vk\<bar> * \<bar>ny\<bar> \<le> 2 * V * 1"
        using du n1 by (intro mult_mono; simp add: V0)+
      then have "\<bar>(ui - uk) * nx\<bar> \<le> 2 * V * 1" "\<bar>(vi - vk) * ny\<bar> \<le> 2 * V * 1"
        by (simp_all only: abs_mult)
      then have db: "\<bar>dot\<bar> \<le> 4 * V"
        unfolding dot_def by (rule sum_le_four[OF abs_triangle_ineq])
      have mx: "\<bar>- (nx * dot * 0.5)\<bar> \<le> 2 * V" "\<bar>- (ny * dot * 0.5)\<bar> \<le> 2 * V"
        using prod[OF n1(1) db] prod[OF n1(2) db] by simp_all
      obtain u1 u2 where u: "fround (Fin (ui + - (nx * dot * 0.5))) = Fin u1"
        "fround (Fin (uk - - (nx * dot * 0.5))) = Fin u2"
        "\<bar>(u1 + u2) - (ui + uk)\<bar> \<le> 6 * V / 2 ^ 24 + 1 / 2 ^ 149"
        using conserved_up_to_rounding[OF bi(4) bk(4) mx(1) PV(2)] by blast
      obtain v1 v2 where v: "fround (Fin (vi + - (ny * dot * 0.5))) = Fin v1"
        "fround (Fin (vk - - (ny * dot * 0.5))) = Fin v2"
        "\<bar>(v1 + v2) - (vi + vk)\<bar> \<le> 6 * V / 2 ^ 24 + 1 / 2 ^ 149"
        using conserved_up_to_rounding[OF bi(5) bk(5) mx(2) PV(2)] by blast
      have "rd (pvx s') (int i) = Fin u1" "rd (pvx s') k = Fin u2"
        "rd (pvy s') (int i) = Fin v1" "rd (pvy s') k = Fin v2"
        using rp(5-8)[OF neg] u(1,2) v(1,2) by simp_all
      then show ?thesis using u(3) v(3) by blast
    qed
    then obtain u1 u2 v1 v2 where w: "rd (pvx s') (int i) = Fin u1" "rd (pvx s') k = Fin u2"
        "rd (pvy s') (int i) = Fin v1" "rd (pvy s') k = Fin v2"
        "\<bar>(u1 + u2) - (ui + uk)\<bar> \<le> 6 * V / 2 ^ 24 + 1 / 2 ^ 149"
        "\<bar>(v1 + v2) - (vi + vk)\<bar> \<le> 6 * V / 2 ^ 24 + 1 / 2 ^ 149"
      by blast
    have fin: "finite_particle s' (int i)" "finite_particle s' k"
      by (simp_all add: finite_particle_def px' py' w(1-4) rad)
    have sums: "\<bar>val (rd (pvx s') (int i) + rd (pvx s') k) - val (rd (pvx s) (int i) + rd (pvx s) k)\<bar>
            \<le> 6 * V / 2 ^ 24 + 1 / 2 ^ 149"
      "\<bar>val (rd (pvy s') (int i) + rd (pvy s') k) - val (rd (pvy s) (int i) + rd (pvy s) k)\<bar>
            \<le> 6 * V / 2 ^ 24 + 1 / 2 ^ 149"
      using w(5,6) by (simp_all add: w(1-4) i k)
    show ?thesis using fin sums mid by blast
  qed
  then show ?thesis unfolding s'_def .
qed

lemma s_pair_resolved:
  "resolve_pair 0 (Some 1) s_pair = s_pair\<lparr>px := [Fin 9, Fin 13], pvx := [Fin 0, Fin 0]\<rparr>"
  apply (simp add: s_pair_def resolve_pair_def Let_def rd_def)
  apply (simp add: velocity_response_def positional_correction_def Let_def rd_def wr_def)
  apply (simp add: f32_eval)
  done

lemma s_skew_resolved:
  "resolve_pair 0 (Some 1) s_skew
     = s_skew\<lparr>px := [Fin (8926003 / 524288), Fin (7589069 / 524288)],
              py := [Fin (4902093 / 262144), Fin (16043213 / 1048576)],
              pvx := [Fin (- (1611817 / 16384)), Fin (- (11270881 / 524288))],
              pvy := [Fin (15115223 / 524288), Fin (- (15115223 / 524288))]\<rparr>"
proof -
  have d: "sqrt (25 / 4) = 5 / 2"
    by (rule real_sqrt_unique) (simp_all add: power2_eq_square)
  show ?thesis
    apply (simp add: s_skew_def resolve_pair_def Let_def rd_def d)
    apply (simp add: velocity_response_def positional_correction_def Let_def rd_def wr_def)
    apply (simp add: f32_eval)
    done
qed

theorem pair_conservation_witness:
  "particle_within 18 120 s_skew (int 0) \<and> particle_within 18 120 s_skew 1 \<and> (1::int) \<noteq> int 0
   \<and> (18::real) \<le> 2 ^ 100 \<and> (120::real) \<le> 2 ^ 100
   \<and> finite_particle (resolve_pair 0 (Some 1) s_skew) (int 0)
   \<and> finite_particle (resolve_pair 0 (Some 1) s_skew) 1
   \<and> \<bar>val (rd (pvx (resolve_pair 0 (Some 1) s_skew)) (int 0) + rd (pvx (resolve_pair 0 (Some 1) s_skew)) 1)
        - val (rd (pvx s_skew) (int 0) + rd (pvx s_skew) 1)\<bar> \<le> 6 * 120 / 2 ^ 24 + 1 / 2 ^ 149
   \<and> \<bar>val ((rd (py (resolve_pair 0 (Some 1) s_skew)) (int 0) + rd (py (resolve_pair 0 (Some 1) s_skew)) 1) / Fin 2)
        - val ((rd (py s_skew) (int 0) + rd (py s_skew) 1) / Fin 2)\<bar> \<le> 3 * 18 / 2 ^ 24 + 1 / 2 ^ 150
   \<and> val (rd (pvx (resolve_pair 0 (Some 1) s_skew)) (int 0) + rd (pvx (resolve_pair 0 (Some 1) s_skew)) 1)
        - val (rd (pvx s_skew) (int 0) + rd (pvx s_skew) 1) = - (1 / 2 ^ 19)"
proof -
  have h: "particle_within 18 120 s_skew (int 0)" "particle_within 18 120 s_skew 1" "(1::int) \<noteq> int 0"
    "(18::real) \<le> 2 ^ 100" "(120::real) \<le> 2 ^ 100"
    by (simp_all add: particle_within_def magnitude_within_def s_skew_def rd_def)
  have "val (rd (pvx (resolve_pair 0 (Some 1) s_skew)) (int 0) + rd (pvx (resolve_pair 0 (Some 1) s_skew)) 1)
        - val (rd (pvx s_skew) (int 0) + rd (pvx s_skew) 1) = - (1 / 2 ^ 19)"
    unfolding s_skew_resolved by (simp add: s_skew_def rd_def)
  then show ?thesis using h pair_conservation[OF h] by simp
qed

theorem pair_sums_change_counterexample:
  "finite_particle s_skew (int 0) \<and> finite_particle s_skew 1
   \<and> rd (pvx s_skew) (int 0) + rd (pvx s_skew) 1 = Fin (- (959 / 8))
   \<and> rd (pvx (resolve_pair 0 (Some 1) s_skew)) (int 0) + rd (pvx (resolve_pair 0 (Some 1) s_skew)) 1
       = Fin (- (62849025 / 524288))
   \<and> rd (pvx (resolve_pair 0 (Some 1) s_skew)) (int 0) + rd (pvx (resolve_pair 0 (Some 1) s_skew)) 1
       \<noteq> rd (pvx s_skew) (int 0) + rd (pvx s_skew) 1
   \<and> (rd (py s_skew) (int 0) + rd (py s_skew) 1) / Fin 2 = Fin 17
   \<and> (rd (py (resolve_pair 0 (Some 1) s_skew)) (int 0) + rd (py (resolve_pair 0 (Some 1) s_skew)) 1) / Fin 2
       = Fin (35651585 / 2097152)
   \<and> (rd (py (resolve_pair 0 (Some 1) s_skew)) (int 0) + rd (py (resolve_pair 0 (Some 1) s_skew)) 1) / Fin 2
       \<noteq> (rd (py s_skew) (int 0) + rd (py s_skew) 1) / Fin 2"
  unfolding s_skew_resolved by (simp add: s_skew_def rd_def finite_particle_def)




subsection \<open>The force of a hand\<close>


lemma hand_force_cases:
  "Fin a + Fin u * hand_force OPEN_PALM (Fin f) = Fin (a + 800 * f * u)"
  "Fin a + Fin u * hand_force CLOSED_FIST (Fin f) = Fin (a - 800 * f * u)"
  "Fin a + Fin u * hand_force NONE (Fin f) = Fin a"
  by (simp_all add: hand_force_def INTERACTION_FORCE_def)

text \<open>
  C4. A particle at distance \<open>d\<close> from a hand, \<open>0 < d < 150\<close> (the interaction radius),
  receives from that hand the acceleration \<open>F * u\<close>, where \<open>u\<close> is the unit vector from
  the hand to the particle and \<open>F = 800 * (1 - d / 150) > 0\<close> for an open palm (away from
  the hand), the acceleration \<open>- F * u\<close> for a closed fist (towards the hand), and none
  for the gesture \<open>NONE\<close>. The vector \<open>F * u\<close> has length \<open>F\<close>.
\<close>

theorem hand_acceleration:
  fixes xi yi hx hy ax ay :: real
  assumes "rd (px s) (int i) = Fin xi" and "rd (py s) (int i) = Fin yi"
    and "hand_x hand * screenW e = Fin hx" and "hand_y hand * screenH e = Fin hy"
    and "d = sqrt ((xi - hx) * (xi - hx) + (yi - hy) * (yi - hy))" and "0 < d" and "d < 150"
  shows "snd (hand_interaction e i hand (s, Fin ax, Fin ay)) =
           (case gesture hand of
              OPEN_PALM \<Rightarrow> (Fin (ax + 800 * (1 - d / 150) * ((xi - hx) / d)),
                            Fin (ay + 800 * (1 - d / 150) * ((yi - hy) / d)))
            | CLOSED_FIST \<Rightarrow> (Fin (ax - 800 * (1 - d / 150) * ((xi - hx) / d)),
                              Fin (ay - 800 * (1 - d / 150) * ((yi - hy) / d)))
            | NONE \<Rightarrow> (Fin ax, Fin ay))
       \<and> 0 < 800 * (1 - d / 150)
       \<and> sqrt ((800 * (1 - d / 150) * ((xi - hx) / d))\<^sup>2 + (800 * (1 - d / 150) * ((yi - hy) / d))\<^sup>2)
           = 800 * (1 - d / 150)"
proof -
  define D where "D = (xi - hx) * (xi - hx) + (yi - hy) * (yi - hy)"
  have D0: "0 \<le> D" unfolding D_def by simp
  have dD: "d = sqrt D" using assms(5) by (simp add: D_def)
  have dd: "d * d = D" using D0 dD by simp
  have "sqrt D < sqrt 22500" using assms(7) dD by simp
  then have Dlt: "D < 22500" by (simp only: real_sqrt_less_iff)
  have F: "0 < 800 * (1 - d / 150)" using assms(6,7) by simp
  have "0 < d * d" using assms(6) by simp
  then have one: "D / (d * d) = 1" unfolding dd by simp
  have alg: "(F * (a / d))\<^sup>2 + (F * (b / d))\<^sup>2 = F\<^sup>2 * ((a * a + b * b) / (d * d))" for F a b :: real
    by (simp add: power2_eq_square add_divide_distrib distrib_left mult_ac)
  have "(800 * (1 - d / 150) * ((xi - hx) / d))\<^sup>2 + (800 * (1 - d / 150) * ((yi - hy) / d))\<^sup>2
      = (800 * (1 - d / 150))\<^sup>2 * (D / (d * d))"
    unfolding D_def by (rule alg)
  also have "\<dots> = (800 * (1 - d / 150))\<^sup>2" by (simp only: one mult_1_right)
  finally have mag: "sqrt ((800 * (1 - d / 150) * ((xi - hx) / d))\<^sup>2 + (800 * (1 - d / 150) * ((yi - hy) / d))\<^sup>2)
           = 800 * (1 - d / 150)"
    using F by simp
  have acc: "snd (hand_interaction e i hand (s, Fin ax, Fin ay)) =
           (Fin ax + Fin ((xi - hx) / d) * hand_force (gesture hand) (Fin (1 - d / 150)),
            Fin ay + Fin ((yi - hy) / d) * hand_force (gesture hand) (Fin (1 - d / 150)))"
    using assms(1-4) D0 Dlt assms(6)
    by (simp add: hand_interaction_def Let_def HAND_RADIUS_SQ_def D_def[symmetric] dD[symmetric] split_def)
  have "snd (hand_interaction e i hand (s, Fin ax, Fin ay)) =
           (case gesture hand of
              OPEN_PALM \<Rightarrow> (Fin (ax + 800 * (1 - d / 150) * ((xi - hx) / d)),
                            Fin (ay + 800 * (1 - d / 150) * ((yi - hy) / d)))
            | CLOSED_FIST \<Rightarrow> (Fin (ax - 800 * (1 - d / 150) * ((xi - hx) / d)),
                              Fin (ay - 800 * (1 - d / 150) * ((yi - hy) / d)))
            | NONE \<Rightarrow> (Fin ax, Fin ay))"
    unfolding acc by (cases "gesture hand") (simp_all only: hand_force_cases HandGesture.case)
  then show ?thesis
    using F mag by blast
qed

theorem hand_acceleration_witness:
  "rd (px s_hand) (int 0) = Fin 303 \<and> rd (py s_hand) (int 0) = Fin 304
   \<and> hand_x palm * screenW e_hand = Fin 300 \<and> hand_y palm * screenH e_hand = Fin 300
   \<and> (5::real) = sqrt ((303 - 300) * (303 - 300) + (304 - 300) * (304 - 300)) \<and> (0::real) < 5
   \<and> (5::real) < 150
   \<and> snd (hand_interaction e_hand 0 palm (s_hand, Fin 0, Fin 30)) = (Fin 464, Fin (1946 / 3))"
proof -
  have p: "rd (px s_hand) (int 0) = Fin 303" "rd (py s_hand) (int 0) = Fin 304"
    by (simp_all add: s_hand_def rd_def)
  have h: "hand_x palm * screenW e_hand = Fin 300" "hand_y palm * screenH e_hand = Fin 300"
    by (simp_all add: palm_def e_hand_def)
  have d: "(5::real) = sqrt ((303 - 300) * (303 - 300) + (304 - 300) * (304 - 300))"
    "(0::real) < 5" "(5::real) < 150"
    by simp_all
  have g: "gesture palm = OPEN_PALM" by (simp add: palm_def)
  show ?thesis
    using p h d hand_acceleration[OF p h d, of 0 30] by (simp add: g)
qed

subsection \<open>Pass 1 touches one particle at a time\<close>

lemma same_elsewhere_refl [simp]: "same_elsewhere i s s"
  by (simp add: same_elsewhere_def)

lemma same_elsewhere_trans:
  "same_elsewhere i s s1 \<Longrightarrow> same_elsewhere i s1 s2 \<Longrightarrow> same_elsewhere i s s2"
  by (simp add: same_elsewhere_def)

lemma frame_step:
  assumes "same_elsewhere i s s1"
  shows "same_elsewhere i s (s1\<lparr>px := wr (px s1) (int i) v\<rparr>)"
    and "same_elsewhere i s (s1\<lparr>py := wr (py s1) (int i) v\<rparr>)"
    and "same_elsewhere i s (s1\<lparr>pvx := wr (pvx s1) (int i) v\<rparr>)"
    and "same_elsewhere i s (s1\<lparr>pvy := wr (pvy s1) (int i) v\<rparr>)"
    and "same_elsewhere i s (s1\<lparr>gridHead := g\<rparr>)"
    and "same_elsewhere i s (s1\<lparr>nextParticle := n\<rparr>)"
  using assms by (simp_all add: same_elsewhere_def rd_wr)

lemma frame_if:
  "same_elsewhere i s a \<Longrightarrow> same_elsewhere i s b \<Longrightarrow> same_elsewhere i s (if c then a else b)"
  by simp

lemma frame_step2:
  assumes "same_elsewhere i s s1"
  shows "same_elsewhere i s (s1\<lparr>py := wr (py s1) (int i) v, pvy := wr (pvy s1) (int i) w\<rparr>)"
    and "same_elsewhere i s (s1\<lparr>px := wr (px s1) (int i) v, pvx := wr (pvx s1) (int i) w\<rparr>)"
    and "same_elsewhere i s (s1\<lparr>px := wr (px s1) (int i) v, py := wr (py s1) (int i) w,
           pvx := wr (pvx s1) (int i) u, pvy := wr (pvy s1) (int i) z\<rparr>)"
  using assms by (simp_all add: same_elsewhere_def rd_wr)

lemma respawn_safety_frame: "same_elsewhere i s (respawn_safety e rnd i s)"
  unfolding respawn_safety_def by (intro frame_if frame_step2 same_elsewhere_refl)

lemma hand_interaction_frame:
  "same_elsewhere i s (fst (hand_interaction e i hand (s, ax, ay)))"
  unfolding hand_interaction_def prod.case Let_def if_distrib[of fst] fst_conv
  by (intro frame_if frame_step same_elsewhere_refl)

lemma hand_interaction_pos:
  "px (fst (hand_interaction e i hand (s, ax, ay))) = px s"
  "py (fst (hand_interaction e i hand (s, ax, ay))) = py s"
  by (simp_all add: hand_interaction_def Let_def)

lemma hands_fold_frame:
  "same_elsewhere i s (fst (fold (hand_interaction e i) hands (s, ax, ay)))"
proof (induction hands arbitrary: s ax ay)
  case Nil
  then show ?case by simp
next
  case (Cons h hands)
  obtain s1 ax1 ay1 where st: "hand_interaction e i h (s, ax, ay) = (s1, ax1, ay1)"
    by (cases "hand_interaction e i h (s, ax, ay)")
  have "same_elsewhere i s s1" using hand_interaction_frame[of i s e h ax ay] st by simp
  then show ?case using Cons.IH[of s1 ax1 ay1] st by (auto intro: same_elsewhere_trans)
qed

lemma hands_fold_pos:
  "px (fst (fold (hand_interaction e i) hands (s, ax, ay))) = px s
   \<and> py (fst (fold (hand_interaction e i) hands (s, ax, ay))) = py s"
proof (induction hands arbitrary: s ax ay)
  case Nil
  then show ?case by simp
next
  case (Cons h hands)
  obtain s1 ax1 ay1 where st: "hand_interaction e i h (s, ax, ay) = (s1, ax1, ay1)"
    by (cases "hand_interaction e i h (s, ax, ay)")
  have "px s1 = px s" "py s1 = py s" using hand_interaction_pos[of e i h s ax ay] st by simp_all
  then show ?case using Cons.IH[of s1 ax1 ay1] st by simp
qed

lemma integration_frame: "same_elsewhere i s (integration i ax ay s)"
  unfolding integration_def Let_def by (intro frame_step same_elsewhere_refl)

lemma max_velocity_frame: "same_elsewhere i s (max_velocity i s)"
proof -
  have "same_elsewhere i s (max_velocity_x i s)"
    unfolding max_velocity_x_def by (intro frame_if frame_step same_elsewhere_refl)
  moreover have "same_elsewhere i (max_velocity_x i s) (max_velocity_y i (max_velocity_x i s))"
    unfolding max_velocity_y_def by (intro frame_if frame_step same_elsewhere_refl)
  ultimately show ?thesis unfolding max_velocity_def by (rule same_elsewhere_trans)
qed

lemma move_frame: "same_elsewhere i s (move i s)"
  unfolding move_def Let_def by (intro frame_step same_elsewhere_refl)

lemma boundaries_frame: "same_elsewhere i s (boundaries e i s)"
proof -
  have "same_elsewhere i s (boundaries_y e i s)"
    unfolding boundaries_y_def Let_def by (intro frame_if frame_step2 same_elsewhere_refl)
  moreover have "same_elsewhere i (boundaries_y e i s) (boundaries_x e i (boundaries_y e i s))"
    unfolding boundaries_x_def Let_def by (intro frame_if frame_step2 same_elsewhere_refl)
  ultimately show ?thesis unfolding boundaries_def by (rule same_elsewhere_trans)
qed

lemma insert_grid_arrays [simp]:
  "px (insert_grid e i s) = px s" "py (insert_grid e i s) = py s"
  "pvx (insert_grid e i s) = pvx s" "pvy (insert_grid e i s) = pvy s"
  "pradius (insert_grid e i s) = pradius s"
  by (simp_all add: insert_grid_def Let_def)

lemma insert_grid_frame: "same_elsewhere i s (insert_grid e i s)"
  by (simp add: same_elsewhere_def)

lemma pass1_particle_frame: "same_elsewhere i s (pass1_particle e hands rnd i s)"
proof -
  obtain s1 ax ay where h: "hands_loop e i hands (respawn_safety e rnd i s) = (s1, ax, ay)"
    by (cases "hands_loop e i hands (respawn_safety e rnd i s)")
  have "same_elsewhere i (respawn_safety e rnd i s) s1"
    using hands_fold_frame[of i "respawn_safety e rnd i s" e hands "Fin 0" GRAVITY] h
    by (simp add: hands_loop_def)
  then have 1: "same_elsewhere i s s1"
    by (rule same_elsewhere_trans[OF respawn_safety_frame])
  have 2: "same_elsewhere i s (integration i ax ay s1)"
    by (rule same_elsewhere_trans[OF 1 integration_frame])
  have 3: "same_elsewhere i s (max_velocity i (integration i ax ay s1))"
    by (rule same_elsewhere_trans[OF 2 max_velocity_frame])
  have 4: "same_elsewhere i s (move i (max_velocity i (integration i ax ay s1)))"
    by (rule same_elsewhere_trans[OF 3 move_frame])
  have 5: "same_elsewhere i s (boundaries e i (move i (max_velocity i (integration i ax ay s1))))"
    by (rule same_elsewhere_trans[OF 4 boundaries_frame])
  show ?thesis
    unfolding pass1_particle_def h prod.case
    by (rule same_elsewhere_trans[OF 5 insert_grid_frame])
qed

subsection \<open>What Pass 1 does to one particle\<close>

lemma sq_sum_less_finite:
  assumes "a * a + b * b < Fin c"
  shows "isFinite a \<and> isFinite b"
  using assms by (cases a; cases b) simp_all

lemma js_or_finite: "isFinite a \<Longrightarrow> isFinite (js_or a (Fin c))"
  by (cases a) simp_all

lemma hand_force_finite: "\<exists>f. hand_force g (Fin c) = Fin f"
  by (cases g) (simp_all add: hand_force_def INTERACTION_FORCE_def)

lemma plus_Fin_not_NaN: "a \<noteq> NaN \<Longrightarrow> a + Fin b \<noteq> NaN"
  by (cases a) simp_all

lemma times_Fin_not_NaN: "a \<noteq> NaN \<Longrightarrow> c \<noteq> 0 \<Longrightarrow> a * Fin c \<noteq> NaN"
  by (cases a) simp_all

lemma rd_not_NaN_range: "rd xs k \<noteq> NaN \<Longrightarrow> 0 \<le> k \<and> k < int (length xs)"
  by (auto simp: rd_def split: if_splits)

lemma rd_wr_val: "rd xs k \<noteq> NaN \<Longrightarrow> rd (wr xs k v) k = fround v"
  using rd_not_NaN_range[of xs k] by (simp add: rd_wr)

lemma isFinite_not_NaN: "isFinite a \<Longrightarrow> a \<noteq> NaN"
  by (cases a) simp_all

lemma respawn_safety_finite:
  "isFinite (rd (px s) (int i)) \<Longrightarrow> isFinite (rd (py s) (int i)) \<Longrightarrow> respawn_safety e rnd i s = s"
  by (simp add: respawn_safety_def)

lemma same_elsewhere_radius: "same_elsewhere i s s' \<Longrightarrow> pradius s' = pradius s"
  by (simp add: same_elsewhere_def)

lemma respawn_safety_sound:
  assumes "sound_particle s (int i)" and "finite_screen e"
  shows "rd (px (respawn_safety e rnd i s)) (int i) \<noteq> NaN"
    and "rd (py (respawn_safety e rnd i s)) (int i) \<noteq> NaN"
    and "rd (pvx (respawn_safety e rnd i s)) (int i) \<noteq> NaN"
    and "rd (pvy (respawn_safety e rnd i s)) (int i) \<noteq> NaN"
proof -
  obtain W H where scr: "screenW e = Fin W" "screenH e = Fin H"
    using assms(2) unfolding finite_screen_def isFinite_iff by blast
  have r: "int i < int (length (px s))" "int i < int (length (py s))"
    "int i < int (length (pvx s))" "int i < int (length (pvy s))"
    using assms(1) by (simp_all add: sound_particle_def)
  have v: "isFinite (rd (px s) (int i)) \<and> isFinite (rd (py s) (int i)) \<Longrightarrow>
      rd (px s) (int i) \<noteq> NaN \<and> rd (py s) (int i) \<noteq> NaN
      \<and> rd (pvx s) (int i) \<noteq> NaN \<and> rd (pvy s) (int i) \<noteq> NaN"
    using assms(1) by (simp add: sound_particle_def isFinite_not_NaN)
  show "rd (px (respawn_safety e rnd i s)) (int i) \<noteq> NaN"
    "rd (py (respawn_safety e rnd i s)) (int i) \<noteq> NaN"
    "rd (pvx (respawn_safety e rnd i s)) (int i) \<noteq> NaN"
    "rd (pvy (respawn_safety e rnd i s)) (int i) \<noteq> NaN"
    using r v scr by (auto simp add: respawn_safety_def rd_wr)
qed

lemma hand_interaction_sound:
  assumes "rd (pvx s) (int i) \<noteq> NaN" "rd (pvy s) (int i) \<noteq> NaN"
    and "isFinite (velocity_x hand)" "isFinite (velocity_y hand)"
    and "screenW e = Fin W" "screenH e = Fin H"
  shows "\<exists>s1 ax1 ay1. hand_interaction e i hand (s, Fin ax, Fin ay) = (s1, Fin ax1, Fin ay1)
           \<and> rd (pvx s1) (int i) \<noteq> NaN \<and> rd (pvy s1) (int i) \<noteq> NaN"
proof -
  define dx where "dx = rd (px s) (int i) - hand_x hand * screenW e"
  define dy where "dy = rd (py s) (int i) - hand_y hand * screenH e"
  show ?thesis
  proof (cases "dx * dx + dy * dy < HAND_RADIUS_SQ")
    case False
    then have "hand_interaction e i hand (s, Fin ax, Fin ay) = (s, Fin ax, Fin ay)"
      by (simp add: hand_interaction_def Let_def dx_def dy_def)
    then show ?thesis using assms(1,2) by simp
  next
    case True
    then have "isFinite dx \<and> isFinite dy"
      unfolding HAND_RADIUS_SQ_def by (rule sq_sum_less_finite)
    then obtain a b where ab: "dx = Fin a" "dy = Fin b" by (auto simp: isFinite_iff)
    obtain hu hv where hv: "js_or (velocity_x hand) (Fin 0) = Fin hu" "js_or (velocity_y hand) (Fin 0) = Fin hv"
      using js_or_finite[OF assms(3), of 0] js_or_finite[OF assms(4), of 0] by (auto simp: isFinite_iff)
    have nn: "\<not> a * a + b * b < 0" by (simp add: not_less)
    have "\<exists>g. js_or (Fin (sqrt (a * a + b * b))) (Fin 0.1) = Fin g \<and> g \<noteq> 0"
    proof (cases "sqrt (a * a + b * b) = 0")
      case True
      then have "js_or (Fin (sqrt (a * a + b * b))) (Fin 0.1) = Fin 0.1" by simp
      then show ?thesis by (intro exI[of _ "0.1"]) simp
    next
      case False
      then have "js_or (Fin (sqrt (a * a + b * b))) (Fin 0.1) = Fin (sqrt (a * a + b * b))"
        by (simp del: real_sqrt_eq_zero_cancel_iff)
      then show ?thesis using False by blast
    qed
    then obtain g where g: "js_or (Fin (sqrt (a * a + b * b))) (Fin 0.1) = Fin g" "g \<noteq> 0"
      by blast
    obtain f where f: "hand_force (gesture hand) (Fin (1 - sqrt (a * a + b * b) / 150)) = Fin f"
      using hand_force_finite by blast
    have r: "rd (pvx s) (int i) \<noteq> NaN" "rd (pvy s) (int i) \<noteq> NaN" by fact+
    show ?thesis
      using True ab[unfolded dx_def dy_def] hv nn g f assms(5,6) r
      by (simp add: hand_interaction_def Let_def HAND_RADIUS_SQ_def rd_wr_val plus_Fin_not_NaN)
  qed
qed

lemma hands_fold_sound:
  assumes "finite_hands hands" and "screenW e = Fin W" and "screenH e = Fin H"
    and "rd (pvx s) (int i) \<noteq> NaN" and "rd (pvy s) (int i) \<noteq> NaN"
  shows "\<exists>s1 ax1 ay1.
           fold (hand_interaction e i) hands (s, Fin ax, Fin ay) = (s1, Fin ax1, Fin ay1)
           \<and> rd (pvx s1) (int i) \<noteq> NaN \<and> rd (pvy s1) (int i) \<noteq> NaN"
  using assms(1,4,5)
proof (induction hands arbitrary: s ax ay)
  case Nil
  then show ?case by simp
next
  case (Cons h hands)
  have fh: "isFinite (velocity_x h)" "isFinite (velocity_y h)" "finite_hands hands"
    using Cons.prems(1) by (simp_all add: finite_hands_def)
  obtain s1 ax1 ay1 where st:
    "hand_interaction e i h (s, Fin ax, Fin ay) = (s1, Fin ax1, Fin ay1)"
    "rd (pvx s1) (int i) \<noteq> NaN" "rd (pvy s1) (int i) \<noteq> NaN"
    using hand_interaction_sound[OF Cons.prems(2,3) fh(1,2) assms(2,3), of ax ay] by blast
  show ?case
    using Cons.IH[OF fh(3) st(2,3), of ax1 ay1] st(1) by simp
qed

lemma integration_at:
  assumes "rd (pvx s) (int i) \<noteq> NaN" and "rd (pvy s) (int i) \<noteq> NaN"
  shows "rd (pvx (integration i (Fin ax) (Fin ay) s)) (int i) \<noteq> NaN"
    and "rd (pvy (integration i (Fin ax) (Fin ay) s)) (int i) \<noteq> NaN"
    and "px (integration i (Fin ax) (Fin ay) s) = px s"
    and "py (integration i (Fin ax) (Fin ay) s) = py s"
    and "pradius (integration i (Fin ax) (Fin ay) s) = pradius s"
proof -
  note r = rd_not_NaN_range[OF assms(1)] rd_not_NaN_range[OF assms(2)]
  show "rd (pvx (integration i (Fin ax) (Fin ay) s)) (int i) \<noteq> NaN"
    using assms r
    by (simp add: integration_def Let_def rd_wr dt_def FRICTION_AIR_def plus_Fin_not_NaN times_Fin_not_NaN)
  show "rd (pvy (integration i (Fin ax) (Fin ay) s)) (int i) \<noteq> NaN"
    using assms r
    by (simp add: integration_def Let_def rd_wr dt_def FRICTION_AIR_def plus_Fin_not_NaN times_Fin_not_NaN)
qed (simp_all add: integration_def Let_def)

lemma clamped:
  assumes "v \<noteq> NaN"
  defines "w \<equiv> (if MAX_VEL < v then fround MAX_VEL else if v < - MAX_VEL then fround (- MAX_VEL) else v)"
  shows "\<exists>U. w = Fin U \<and> - 250 \<le> U \<and> U \<le> 250"
proof -
  have "w = (if MAX_VEL < v then MAX_VEL else if v < - MAX_VEL then - MAX_VEL else v)"
    unfolding w_def by simp
  then have "Fin (- 250) \<le> w \<and> w \<le> Fin 250"
    using assms(1) unfolding MAX_VEL_def
    by (cases v) (auto simp add: less_eq_num_def)
  then show ?thesis using between_Fin by blast
qed

lemma max_velocity_at:
  assumes "rd (pvx s) (int i) \<noteq> NaN" and "rd (pvy s) (int i) \<noteq> NaN"
  shows "\<exists>U V. rd (pvx (max_velocity i s)) (int i) = Fin U \<and> rd (pvy (max_velocity i s)) (int i) = Fin V
           \<and> - 250 \<le> U \<and> U \<le> 250 \<and> - 250 \<le> V \<and> V \<le> 250"
    and "px (max_velocity i s) = px s"
    and "py (max_velocity i s) = py s"
    and "pradius (max_velocity i s) = pradius s"
proof -
  have x: "rd (pvx (max_velocity_x i s)) (int i)
      = (if MAX_VEL < rd (pvx s) (int i) then fround MAX_VEL
         else if rd (pvx s) (int i) < - MAX_VEL then fround (- MAX_VEL) else rd (pvx s) (int i))"
    "pvy (max_velocity_x i s) = pvy s"
    using assms(1) by (simp_all add: max_velocity_x_def rd_wr_val)
  have y: "rd (pvy (max_velocity i s)) (int i)
      = (if MAX_VEL < rd (pvy s) (int i) then fround MAX_VEL
         else if rd (pvy s) (int i) < - MAX_VEL then fround (- MAX_VEL) else rd (pvy s) (int i))"
    "pvx (max_velocity i s) = pvx (max_velocity_x i s)"
    using assms(2) x(2) by (simp_all add: max_velocity_def max_velocity_y_def rd_wr_val)
  show "\<exists>U V. rd (pvx (max_velocity i s)) (int i) = Fin U \<and> rd (pvy (max_velocity i s)) (int i) = Fin V
           \<and> - 250 \<le> U \<and> U \<le> 250 \<and> - 250 \<le> V \<and> V \<le> 250"
    unfolding y x using clamped[OF assms(1)] clamped[OF assms(2)] by blast
qed (simp_all add: max_velocity_def max_velocity_x_def max_velocity_y_def)

lemma move_at:
  assumes "rd (px s) (int i) \<noteq> NaN" and "rd (py s) (int i) \<noteq> NaN"
    and "rd (pvx s) (int i) = Fin u" and "rd (pvy s) (int i) = Fin v"
  shows "rd (px (move i s)) (int i) = fround (rd (px s) (int i) + Fin (u * (1 / 60) * 5))"
    and "rd (py (move i s)) (int i) = fround (rd (py s) (int i) + Fin (v * (1 / 60) * 5))"
    and "pvx (move i s) = pvx s"
    and "pvy (move i s) = pvy s"
    and "pradius (move i s) = pradius s"
  using assms by (simp_all add: move_def Let_def dt_def rd_wr_val)

lemma axis_clamp:
  fixes r L :: real
  assumes "p \<noteq> NaN" and "is_float32 p" and "is_float32 (Fin r)" and "2 * r \<le> L"
  defines "p' \<equiv> (if Fin (L - r) < p then fround (Fin (L - r)) else if p < Fin r then fround (Fin r) else p)"
  shows "Fin r \<le> p' \<and> p' \<le> fround (Fin (L - r))"
proof -
  have fr: "fround (Fin r) = Fin r" using assms(3) by (simp add: is_float32_def)
  have fp: "fround p = p" using assms(2) by (simp add: is_float32_def)
  have "Fin r \<le> Fin (L - r)" using assms(4) by simp
  then have "fround (Fin r) \<le> fround (Fin (L - r))" by (rule fround_mono)
  then have rl: "Fin r \<le> fround (Fin (L - r))" by (simp only: fr)
  have nn: "fround (Fin (L - r)) \<noteq> NaN" by simp
  show ?thesis
  proof (cases "Fin (L - r) < p")
    case True
    then show ?thesis using rl le_num_refl[OF nn] by (simp add: p'_def)
  next
    case False
    show ?thesis
    proof (cases "p < Fin r")
      case True
      then show ?thesis using False rl by (simp add: p'_def fr)
    next
      case low: False
      have 1: "Fin r \<le> p" using low assms(1) by (intro not_less_num) simp_all
      have "p \<le> Fin (L - r)" using False assms(1) by (intro not_less_num) simp_all
      then have "fround p \<le> fround (Fin (L - r))" by (rule fround_mono)
      then show ?thesis using False low 1 by (simp add: p'_def fp)
    qed
  qed
qed

lemma bounce_bounded:
  fixes V c :: real
  assumes "- 250 \<le> V" and "V \<le> 250" and "\<bar>c\<bar> \<le> 1"
  shows "\<exists>V'. fround (Fin V * Fin c) = Fin V' \<and> - 250 \<le> V' \<and> V' \<le> 250"
proof -
  have "\<bar>V * c\<bar> \<le> 250 * 1"
    unfolding abs_mult using assms by (intro mult_mono) simp_all
  then have b: "Fin (- 250) \<le> Fin (V * c)" "Fin (V * c) \<le> Fin 250"
    by (simp_all add: abs_le_iff)
  have "fround (Fin (- 250)) \<le> fround (Fin (V * c))" "fround (Fin (V * c)) \<le> fround (Fin 250)"
    by (rule fround_mono[OF b(1)], rule fround_mono[OF b(2)])
  moreover have "fround (Fin (- 250)) = Fin (- 250)" "fround (Fin 250) = Fin 250"
    using fround_consts(2,3) by (simp_all add: MAX_VEL_def)
  ultimately have "Fin (- 250) \<le> fround (Fin V * Fin c)" "fround (Fin V * Fin c) \<le> Fin 250"
    by simp_all
  then show ?thesis by (rule between_Fin)
qed

lemma boundaries_y_at:
  assumes "rd (py s) (int i) \<noteq> NaN" and "rd (pvy s) (int i) = Fin V"
    and "rd (pradius s) (int i) = Fin r" and "screenH e = Fin H"
  shows "rd (py (boundaries_y e i s)) (int i)
           = (if Fin (H - r) < rd (py s) (int i) then fround (Fin (H - r))
              else if rd (py s) (int i) < Fin r then fround (Fin r) else rd (py s) (int i))"
    and "rd (pvy (boundaries_y e i s)) (int i)
           = (if Fin (H - r) < rd (py s) (int i) then fround (Fin V * Fin (- 0.3))
              else if rd (py s) (int i) < Fin r then fround (Fin V * Fin (- 0.3)) else Fin V)"
    and "px (boundaries_y e i s) = px s"
    and "pvx (boundaries_y e i s) = pvx s"
    and "pradius (boundaries_y e i s) = pradius s"
  using assms
  by (simp_all add: boundaries_y_def Let_def rd_wr_val rd_wr_at BOUNCE_WALL_def BOUNCE_GROUND_def)

lemma boundaries_x_at:
  assumes "rd (px s) (int i) \<noteq> NaN" and "rd (pvx s) (int i) = Fin U"
    and "rd (pradius s) (int i) = Fin r" and "screenW e = Fin W"
  shows "rd (px (boundaries_x e i s)) (int i)
           = (if Fin (W - r) < rd (px s) (int i) then fround (Fin (W - r))
              else if rd (px s) (int i) < Fin r then fround (Fin r) else rd (px s) (int i))"
    and "rd (pvx (boundaries_x e i s)) (int i)
           = (if Fin (W - r) < rd (px s) (int i) then fround (Fin U * Fin (- 0.3))
              else if rd (px s) (int i) < Fin r then fround (Fin U * Fin (- 0.3)) else Fin U)"
    and "py (boundaries_x e i s) = py s"
    and "pvy (boundaries_x e i s) = pvy s"
    and "pradius (boundaries_x e i s) = pradius s"
  using assms
  by (simp_all add: boundaries_x_def Let_def rd_wr_val rd_wr_at BOUNCE_WALL_def)

lemma bounced:
  fixes V :: real
  assumes "- 250 \<le> V" and "V \<le> 250"
  shows "- MAX_VEL \<le> (if c1 then fround (Fin V * Fin (- 0.3))
                       else if c2 then fround (Fin V * Fin (- 0.3)) else Fin V)
       \<and> (if c1 then fround (Fin V * Fin (- 0.3))
           else if c2 then fround (Fin V * Fin (- 0.3)) else Fin V) \<le> MAX_VEL"
proof -
  obtain V' where "fround (Fin V * Fin (- 0.3)) = Fin V'" "- 250 \<le> V'" "V' \<le> 250"
    using bounce_bounded[OF assms(1,2), of "- 0.3"] by auto
  then show ?thesis using assms(1,2) by (simp add: MAX_VEL_def)
qed

lemma pass1_particle_local:
  assumes sp: "sound_particle s (int i)" and fh: "finite_hands hands" and fs: "finite_screen e"
  shows "(room_for e s i \<and> is_float32 (rd (pradius s) (int i)) \<longrightarrow>
            in_bounds_rounded e (pass1_particle e hands rnd i s) i)
       \<and> speed_limited (pass1_particle e hands rnd i s) i"
proof -
  obtain r where rad: "rd (pradius s) (int i) = Fin r"
    using sp unfolding sound_particle_def isFinite_iff by blast
  obtain W H where scr: "screenW e = Fin W" "screenH e = Fin H"
    using fs unfolding finite_screen_def isFinite_iff by blast
  have rm: "room_for e s i \<longleftrightarrow> 2 * r \<le> W \<and> 2 * r \<le> H"
    using rad scr by (simp add: room_for_def)
  define s0 where "s0 = respawn_safety e rnd i s"
  note n0 = respawn_safety_sound[OF sp fs, of rnd, folded s0_def]
  have r0: "pradius s0 = pradius s"
    unfolding s0_def by (rule same_elsewhere_radius[OF respawn_safety_frame])
  obtain s1 ax ay where h:
    "hands_loop e i hands s0 = (s1, Fin ax, Fin ay)"
    "rd (pvx s1) (int i) \<noteq> NaN" "rd (pvy s1) (int i) \<noteq> NaN"
    using hands_fold_sound[OF fh scr n0(3,4), of 0 30] unfolding hands_loop_def GRAVITY_def by blast
  have s1: "px s1 = px s0" "py s1 = py s0" "pradius s1 = pradius s0"
    using hands_fold_pos[of e i hands s0 "Fin 0" GRAVITY] hands_fold_frame[of i s0 e hands "Fin 0" GRAVITY] h(1)
    by (simp_all add: hands_loop_def same_elsewhere_radius)
  define s2 where "s2 = integration i (Fin ax) (Fin ay) s1"
  define s3 where "s3 = max_velocity i s2"
  define s4 where "s4 = move i s3"
  define s5 where "s5 = boundaries_y e i s4"
  define s6 where "s6 = boundaries_x e i s5"
  have p: "pass1_particle e hands rnd i s = insert_grid e i s6"
    by (simp add: pass1_particle_def boundaries_def h(1) s0_def[symmetric] s2_def s3_def s4_def s5_def s6_def)
  note i2 = integration_at[OF h(2,3), of ax ay, folded s2_def]
  note i3 = max_velocity_at[OF i2(1,2), folded s3_def]
  obtain U V where uv: "rd (pvx s3) (int i) = Fin U" "rd (pvy s3) (int i) = Fin V"
    and ub: "- 250 \<le> U" "U \<le> 250" "- 250 \<le> V" "V \<le> 250"
    using i3(1) by blast
  have p3: "rd (px s3) (int i) \<noteq> NaN" "rd (py s3) (int i) \<noteq> NaN" "rd (pradius s3) (int i) = Fin r"
    using n0(1,2) rad by (simp_all add: i3(2-4) i2(3-5) s1 r0)
  note i4 = move_at[OF p3(1,2) uv, folded s4_def]
  have p4: "rd (px s4) (int i) \<noteq> NaN" "rd (py s4) (int i) \<noteq> NaN"
    "is_float32 (rd (px s4) (int i))" "is_float32 (rd (py s4) (int i))"
    "rd (pvx s4) (int i) = Fin U" "rd (pvy s4) (int i) = Fin V" "rd (pradius s4) (int i) = Fin r"
    using p3 uv by (simp_all add: i4 plus_Fin_not_NaN)
  note i5 = boundaries_y_at[OF p4(2,6,7) scr(2), folded s5_def]
  have p5: "rd (px s5) (int i) \<noteq> NaN" "is_float32 (rd (px s5) (int i))"
    "rd (pvx s5) (int i) = Fin U" "rd (pradius s5) (int i) = Fin r"
    using p4 by (simp_all add: i5(3-5))
  note i6 = boundaries_x_at[OF p5(1,3,4) scr(1), folded s6_def]
  have r6: "rd (pradius s6) (int i) = Fin r" using p5(4) by (simp add: i6(5))
  have y6: "rd (py s6) (int i) = rd (py s5) (int i)" "rd (pvy s6) (int i) = rd (pvy s5) (int i)"
    by (simp_all add: i6(3,4))
  have sl: "speed_limited (insert_grid e i s6) i"
    unfolding speed_limited_def insert_grid_arrays y6 i5(2) i6(2)
    using bounced[OF ub(1,2)] bounced[OF ub(3,4)] by blast
  have ib: "in_bounds_rounded e (insert_grid e i s6) i"
    if "room_for e s i" "is_float32 (rd (pradius s) (int i))"
  proof -
    have f: "is_float32 (Fin r)" using that(2) rad by simp
    have w: "2 * r \<le> W" "2 * r \<le> H" using that(1) rm by simp_all
    show ?thesis
      unfolding in_bounds_rounded_def insert_grid_arrays y6 i5(1) i6(1) r6 scr minus_Fin
      using axis_clamp[OF p5(1,2) f w(1)] axis_clamp[OF p4(2,4) f w(2)] by blast
  qed
  show ?thesis unfolding p using sl ib by blast
qed

lemma same_elsewhere_local:
  assumes "same_elsewhere i s s'" and "k \<noteq> i"
  shows "sound_particle s' (int k) = sound_particle s (int k)"
    and "in_bounds_rounded e s' k = in_bounds_rounded e s k"
    and "speed_limited s' k = speed_limited s k"
  using assms
  by (simp_all add: same_elsewhere_def sound_particle_def in_bounds_rounded_def speed_limited_def)

lemma pass1_fold_invariant:
  assumes fh: "finite_hands hands" and fs: "finite_screen e"
    and pre: "\<forall>i<n. sound_particle s (int i)"
    and m: "m \<le> n"
  shows "(\<forall>i<m. (room_for e s i \<and> is_float32 (rd (pradius s) (int i)) \<longrightarrow>
                    in_bounds_rounded e (fold (pass1_particle e hands rnd) [0..<m] s) i)
                \<and> speed_limited (fold (pass1_particle e hands rnd) [0..<m] s) i)
       \<and> (\<forall>i. m \<le> i \<and> i < n \<longrightarrow>
              sound_particle (fold (pass1_particle e hands rnd) [0..<m] s) (int i))
       \<and> pradius (fold (pass1_particle e hands rnd) [0..<m] s) = pradius s"
  using m
proof (induction m)
  case 0
  then show ?case using pre by simp
next
  case (Suc m)
  define sm where "sm = fold (pass1_particle e hands rnd) [0..<m] s"
  have step: "fold (pass1_particle e hands rnd) [0..<Suc m] s = pass1_particle e hands rnd m sm"
    by (simp add: sm_def)
  have ih: "\<forall>i<m. (room_for e s i \<and> is_float32 (rd (pradius s) (int i)) \<longrightarrow> in_bounds_rounded e sm i)
                    \<and> speed_limited sm i"
    "\<forall>i. m \<le> i \<and> i < n \<longrightarrow> sound_particle sm (int i)"
    "pradius sm = pradius s"
    using Suc.IH Suc.prems unfolding sm_def by simp_all
  have fr: "same_elsewhere m sm (pass1_particle e hands rnd m sm)"
    by (rule pass1_particle_frame)
  have here: "sound_particle sm (int m)"
    using ih(2) Suc.prems by simp
  have rm: "room_for e sm k = room_for e s k" for k
    using ih(3) by (simp add: room_for_def)
  note loc = pass1_particle_local[OF here fh fs, of rnd, unfolded rm ih(3)]
  show ?case
    unfolding step
  proof (intro conjI allI impI)
    fix i assume "i < Suc m" and "room_for e s i \<and> is_float32 (rd (pradius s) (int i))"
    moreover from \<open>i < Suc m\<close> consider "i = m" | "i < m" by linarith
    ultimately show "in_bounds_rounded e (pass1_particle e hands rnd m sm) i"
      using loc ih(1) same_elsewhere_local(2)[OF fr] by cases auto
  next
    fix i assume "i < Suc m"
    then consider "i = m" | "i < m" by linarith
    then show "speed_limited (pass1_particle e hands rnd m sm) i"
      using loc ih(1) same_elsewhere_local(3)[OF fr] by cases auto
  next
    fix i assume "Suc m \<le> i \<and> i < n"
    then show "sound_particle (pass1_particle e hands rnd m sm) (int i)"
      using ih(2) same_elsewhere_local(1)[OF fr, of i] by auto
  next
    show "pradius (pass1_particle e hands rnd m sm) = pradius s"
      using same_elsewhere_radius[OF fr] ih(3) by simp
  qed
qed

lemma pass1_post:
  assumes "finite_hands hands" and "finite_screen e"
    and "\<forall>i<particleCount e. sound_particle s (int i)"
    and "i < particleCount e"
  shows "room_for e s i \<Longrightarrow> is_float32 (rd (pradius s) (int i)) \<Longrightarrow>
           in_bounds_rounded e (pass1 e hands rnd s) i"
    and "speed_limited (pass1 e hands rnd s) i"
    and "pradius (pass1 e hands rnd s) = pradius s"
  using pass1_fold_invariant[OF assms(1-3) order_refl, of rnd] assms(4)
  by (simp_all add: pass1_def)

lemma finite_particle_sound: "finite_particle s k \<Longrightarrow> sound_particle s k"
  using rd_range[of "px s" k] rd_range[of "py s" k] rd_range[of "pvx s" k] rd_range[of "pvy s" k]
  by (simp add: finite_particle_def sound_particle_def)

subsection \<open>Bounds after Pass 1\<close>

lemma grid_reset_local [simp]:
  "finite_particle (grid_reset s) k = finite_particle s k"
  "sound_particle (grid_reset s) k = sound_particle s k"
  "room_for e (grid_reset s) i = room_for e s i"
  "pradius (grid_reset s) = pradius s"
  by (simp_all add: grid_reset_def finite_particle_def sound_particle_def room_for_def)

text \<open>
  C3 (as amended). When the velocities of the hands and the screen dimensions are
  finite and every particle is sound (finite radius and, unless its position is not
  finite, finite velocity; in particular when all its attributes are finite), has a
  radius that is a 32-bit float and fits in the screen twice, every particle satisfies
  right after Pass 1 \<open>radius \<le> x \<le> fround (screenW - radius)\<close> and
  \<open>radius \<le> y \<le> fround (screenH - radius)\<close>: the upper bound is the 32-bit float
  nearest to \<open>screenW - radius\<close>, which is what the clamp stores, and it can exceed
  \<open>screenW - radius\<close> by half a unit in the last place.
\<close>

theorem pass1_in_bounds:
  assumes "finite_hands hands" and "finite_screen e"
    and "\<forall>i<particleCount e. sound_particle s (int i) \<and> room_for e s i
           \<and> is_float32 (rd (pradius s) (int i))"
  shows "\<forall>i<particleCount e. in_bounds_rounded e (pass1 e hands rnd (grid_reset s)) i"
proof (intro allI impI)
  fix i assume i: "i < particleCount e"
  have snd: "\<forall>i<particleCount e. sound_particle (grid_reset s) (int i)"
    using assms(3) by simp
  have "room_for e (grid_reset s) i" "is_float32 (rd (pradius (grid_reset s)) (int i))"
    using assms(3) i by simp_all
  then show "in_bounds_rounded e (pass1 e hands rnd (grid_reset s)) i"
    by (rule pass1_post(1)[OF assms(1,2) snd i])
qed

lemma s_fall_pass1:
  "pass1 e_one [] (\<lambda>_. 1 / 2) (grid_reset s_fall)
     = \<lparr>px = [Fin 10], py = [Fin 22], pvx = [Fin 0], pvy = [Fin (- 75)],
         pradius = [Fin 2], gridHead = [- 1, - 1, 0, - 1], nextParticle = [- 1]\<rparr>"
  apply (simp add: pass1_def pass1_particle_def hands_loop_def e_one_def)
  apply (simp add: s_fall_def grid_reset_def respawn_safety_def rd_def)
  apply (simp add: integration_def rd_def wr_def GRAVITY_def FRICTION_AIR_def dt_def f32_eval)
  apply (simp add: max_velocity_def max_velocity_x_def max_velocity_y_def MAX_VEL_def rd_def wr_def f32_eval)
  apply (simp add: move_def rd_def wr_def dt_def f32_eval)
  apply (simp add: boundaries_def boundaries_x_def boundaries_y_def rd_def wr_def BOUNCE_WALL_def
      BOUNCE_GROUND_def f32_eval)
  apply (simp add: insert_grid_def rd_def wrI_def rdI_def Let_def cell_x_def cell_y_def in_grid_def
      CELL_SIZE_def trunc_def wrap32_def)
  done

theorem pass1_in_bounds_witness:
  "finite_hands [] \<and> finite_screen e_one \<and> particleCount e_one = 1
   \<and> sound_particle s_fall (int 0) \<and> room_for e_one s_fall 0
   \<and> is_float32 (rd (pradius s_fall) (int 0))
   \<and> in_bounds_rounded e_one (pass1 e_one [] (\<lambda>_. 1 / 2) (grid_reset s_fall)) 0
   \<and> rd (py (pass1 e_one [] (\<lambda>_. 1 / 2) (grid_reset s_fall))) 0 = Fin 22"
proof -
  have n: "particleCount e_one = 1" by (simp add: e_one_def)
  have p: "sound_particle s_fall (int 0)" "room_for e_one s_fall 0"
    "is_float32 (rd (pradius s_fall) (int 0))"
    by (simp_all add: e_one_def sound_particle_def room_for_def s_fall_def rd_def is_float32_def f32_eval)
  have h: "finite_hands []" "finite_screen e_one"
    "\<forall>i<particleCount e_one. sound_particle s_fall (int i) \<and> room_for e_one s_fall i
       \<and> is_float32 (rd (pradius s_fall) (int i))"
    using p by (simp_all add: finite_hands_def finite_screen_def e_one_def)
  have "rd (py (pass1 e_one [] (\<lambda>_. 1 / 2) (grid_reset s_fall))) 0 = Fin 22"
    by (simp add: s_fall_pass1 rd_def)
  then show ?thesis
    using h(1,2) n p pass1_in_bounds[OF h, of "\<lambda>_. 1 / 2"] by simp
qed

lemma s_low_pass1:
  "pass1 e_small [] rnd (grid_reset s_low)
     = \<lparr>px = [Fin 30], py = [Fin (7654605 / 131072)], pvx = [Fin 0],
         pvy = [Fin (- (9865003 / 67108864))], pradius = [Fin (13421773 / 8388608)],
         gridHead = (replicate 25 (- 1))[22 := 0], nextParticle = [- 1]\<rparr>"
  apply (simp add: pass1_def pass1_particle_def hands_loop_def e_small_def)
  apply (simp add: s_low_def grid_reset_def empty_grid_def respawn_safety_def rd_def)
  apply (simp add: integration_def rd_def wr_def GRAVITY_def FRICTION_AIR_def dt_def f32_eval)
  apply (simp add: max_velocity_def max_velocity_x_def max_velocity_y_def MAX_VEL_def rd_def wr_def f32_eval)
  apply (simp add: move_def rd_def wr_def dt_def f32_eval)
  apply (simp add: boundaries_def boundaries_x_def boundaries_y_def rd_def wr_def BOUNCE_WALL_def
      BOUNCE_GROUND_def f32_eval)
  apply (simp add: insert_grid_def rd_def wrI_def rdI_def Let_def cell_x_def cell_y_def in_grid_def
      CELL_SIZE_def trunc_def wrap32_def)
  done

theorem pass1_rounds_above_bound_counterexample:
  "finite_hands [] \<and> finite_screen e_small \<and> finite_particle s_low (int 0) \<and> room_for e_small s_low 0
   \<and> is_float32 (rd (pradius s_low) (int 0))
   \<and> rd (py (pass1 e_small [] (\<lambda>_. 1 / 2) (grid_reset s_low))) (int 0) = Fin (7654605 / 131072)
   \<and> screenH e_small - rd (pradius (pass1 e_small [] (\<lambda>_. 1 / 2) (grid_reset s_low))) (int 0)
        = Fin (489894707 / 8388608)
   \<and> screenH e_small - rd (pradius (pass1 e_small [] (\<lambda>_. 1 / 2) (grid_reset s_low))) (int 0)
        < rd (py (pass1 e_small [] (\<lambda>_. 1 / 2) (grid_reset s_low))) (int 0)
   \<and> \<not> in_bounds e_small (pass1 e_small [] (\<lambda>_. 1 / 2) (grid_reset s_low)) 0"
proof -
  have "finite_hands []" "finite_screen e_small" "finite_particle s_low (int 0)" "room_for e_small s_low 0"
    "is_float32 (rd (pradius s_low) (int 0))"
    by (simp_all add: finite_hands_def finite_screen_def e_small_def finite_particle_def room_for_def
        s_low_def rd_def is_float32_def f32_eval)
  then show ?thesis
    unfolding s_low_pass1 by (simp add: in_bounds_def e_small_def rd_def)
qed

text \<open>
  C2 (as amended). When all attributes of the particles, the velocities of the hands and
  the screen dimensions are finite, every particle has \<open>|vx| \<le> MAX_VEL\<close> and
  \<open>|vy| \<le> MAX_VEL\<close> right after Pass 1 (the clamp, followed by a reflection that can only
  shrink the velocity). Pass 2 adds its impulses afterwards and does not clamp.
\<close>

theorem pass1_speed_limited:
  assumes "finite_hands hands" and "finite_screen e"
    and "\<forall>i<particleCount e. finite_particle s (int i)"
  shows "\<forall>i<particleCount e. speed_limited (pass1 e hands rnd (grid_reset s)) i"
proof (intro allI impI)
  fix i assume i: "i < particleCount e"
  have snd: "\<forall>i<particleCount e. sound_particle (grid_reset s) (int i)"
    using assms(3) by (simp add: finite_particle_sound)
  show "speed_limited (pass1 e hands rnd (grid_reset s)) i"
    by (rule pass1_post(2)[OF assms(1,2) snd i])
qed

theorem pass1_speed_limited_witness:
  "finite_hands [] \<and> finite_screen e_one \<and> particleCount e_one = 1
   \<and> finite_particle s_fall (int 0)
   \<and> speed_limited (pass1 e_one [] (\<lambda>_. 1 / 2) (grid_reset s_fall)) 0
   \<and> rd (pvy (pass1 e_one [] (\<lambda>_. 1 / 2) (grid_reset s_fall))) 0 = Fin (- 75)"
proof -
  have n: "particleCount e_one = 1" by (simp add: e_one_def)
  have p: "finite_particle s_fall (int 0)"
    by (simp add: finite_particle_def s_fall_def rd_def)
  have h: "finite_hands []" "finite_screen e_one"
    "\<forall>i<particleCount e_one. finite_particle s_fall (int i)"
    using p by (simp_all add: finite_hands_def finite_screen_def e_one_def)
  have "rd (pvy (pass1 e_one [] (\<lambda>_. 1 / 2) (grid_reset s_fall))) 0 = Fin (- 75)"
    by (simp add: s_fall_pass1 rd_def)
  then show ?thesis
    using h(1,2) n p pass1_speed_limited[OF h, of "\<lambda>_. 1 / 2"] by simp
qed

subsection \<open>Two ticks evaluated\<close>

lemma pass1_two:
  "pass1 e_two hands rnd s = pass1_particle e_two hands rnd (Suc 0) (pass1_particle e_two hands rnd 0 s)"
proof -
  have "[0..<2] = [0, 1]" by (simp add: upt_rec)
  then show ?thesis by (simp add: pass1_def e_two_def)
qed

lemma scan_cell_outside: "\<not> in_grid e ncx ncy \<Longrightarrow> scan_cell e i ncx ncy s = (s, 0)"
  by (simp add: scan_cell_def)

lemma scan_cell_empty:
  "rdI (gridHead s) (ncy * gridW e + ncx) = Some (- 1) \<Longrightarrow> scan_cell e i ncx ncy s = (s, 0)"
  by (simp add: scan_cell_def walk.simps[of i "Some (- 1)"])

lemma walk_end: "walk i (Some (- 1)) k s = (s, k)"
  by (subst walk.simps) simp

lemma pass2_two: "pass2 e_two s = pass2_particle e_two (Suc 0) (pass2_particle e_two 0 s)"
proof -
  have "[0..<2] = [0, 1]" by (simp add: upt_rec)
  then show ?thesis by (simp add: pass2_def e_two_def)
qed

lemma e_two_grid:
  "in_grid e_two cx cy = (0 \<le> cx \<and> cx < 5 \<and> 0 \<le> cy \<and> cy < 5)" "gridW e_two = 5"
  by (simp_all add: in_grid_def e_two_def)

lemma sqrt_25_4: "sqrt (25 / 4) = 5 / 2"
  by (rule real_sqrt_unique) (simp_all add: power2_eq_square)

lemma s_wall_pass1:
  "pass1 e_two [] rnd (grid_reset s_wall)
     = \<lparr>px = [Fin 2, Fin 5], py = [Fin (492189 / 16384), Fin (492189 / 16384)],
         pvx = [Fin 0, Fin 0], pvy = [Fin (2055209 / 4194304), Fin (2055209 / 4194304)],
         pradius = [Fin 2, Fin 2], gridHead = (replicate 25 (- 1))[10 := 1],
         nextParticle = [- 1, 0]\<rparr>"
proof -
  have 0: "pass1_particle e_two [] rnd 0 (grid_reset s_wall)
     = \<lparr>px = [Fin 2, Fin 5], py = [Fin (492189 / 16384), Fin 30],
         pvx = [Fin 0, Fin 0], pvy = [Fin (2055209 / 4194304), Fin 0],
         pradius = [Fin 2, Fin 2], gridHead = (replicate 25 (- 1))[10 := 0],
         nextParticle = [- 1, - 1]\<rparr>"
    apply (simp add: pass1_particle_def hands_loop_def e_two_def)
    apply (simp add: s_wall_def grid_reset_def empty_grid_def respawn_safety_def rd_def)
    apply (simp add: integration_def rd_def wr_def GRAVITY_def FRICTION_AIR_def dt_def f32_eval)
    apply (simp add: max_velocity_def max_velocity_x_def max_velocity_y_def MAX_VEL_def rd_def wr_def f32_eval)
    apply (simp add: move_def rd_def wr_def dt_def f32_eval)
    apply (simp add: boundaries_def boundaries_x_def boundaries_y_def rd_def wr_def
        BOUNCE_WALL_def BOUNCE_GROUND_def f32_eval)
    apply (simp add: insert_grid_def rd_def wrI_def rdI_def Let_def cell_x_def cell_y_def in_grid_def
        CELL_SIZE_def trunc_def wrap32_def)
    done
  show ?thesis
    unfolding pass1_two 0
    apply (simp add: pass1_particle_def hands_loop_def e_two_def)
    apply (simp add: respawn_safety_def rd_def)
    apply (simp add: integration_def rd_def wr_def GRAVITY_def FRICTION_AIR_def dt_def f32_eval)
    apply (simp add: max_velocity_def max_velocity_x_def max_velocity_y_def MAX_VEL_def rd_def wr_def f32_eval)
    apply (simp add: move_def rd_def wr_def dt_def f32_eval)
    apply (simp add: boundaries_def boundaries_x_def boundaries_y_def rd_def wr_def
        BOUNCE_WALL_def BOUNCE_GROUND_def f32_eval)
    apply (simp add: insert_grid_def rd_def wrI_def rdI_def Let_def cell_x_def cell_y_def in_grid_def
        CELL_SIZE_def trunc_def wrap32_def)
    done
qed


lemma s_fast_pass1:
  "pass1 e_two [] rnd (grid_reset s_fast)
     = \<lparr>px = [Fin (9000277 / 262144), Fin (8607061 / 262144)], py = [Fin (14592683 / 524288), Fin (13544107 / 524288)],
         pvx = [Fin 250, Fin 250], pvy = [Fin (- 250), Fin 250],
         pradius = [Fin (5 / 2), Fin (5 / 2)], gridHead = (replicate 25 (- 1))[12 := 1],
         nextParticle = [- 1, 0]\<rparr>"
proof -
  have 0: "pass1_particle e_two [] rnd 0 (grid_reset s_fast)
     = \<lparr>px = [Fin (9000277 / 262144), Fin 12], py = [Fin (14592683 / 524288), Fin 5],
         pvx = [Fin 250, Fin 300], pvy = [Fin (- 250), Fin 300],
         pradius = [Fin (5 / 2), Fin (5 / 2)], gridHead = (replicate 25 (- 1))[12 := 0],
         nextParticle = [- 1, - 1]\<rparr>"
    apply (simp add: pass1_particle_def hands_loop_def e_two_def)
    apply (simp add: s_fast_def grid_reset_def empty_grid_def respawn_safety_def rd_def)
    apply (simp add: integration_def rd_def wr_def GRAVITY_def FRICTION_AIR_def dt_def f32_eval)
    apply (simp add: max_velocity_def max_velocity_x_def max_velocity_y_def MAX_VEL_def rd_def wr_def f32_eval)
    apply (simp add: move_def rd_def wr_def dt_def f32_eval)
    apply (simp add: boundaries_def boundaries_x_def boundaries_y_def rd_def wr_def
        BOUNCE_WALL_def BOUNCE_GROUND_def f32_eval)
    apply (simp add: insert_grid_def rd_def wrI_def rdI_def Let_def cell_x_def cell_y_def in_grid_def
        CELL_SIZE_def trunc_def wrap32_def)
    done
  show ?thesis
    unfolding pass1_two 0
    apply (simp add: pass1_particle_def hands_loop_def e_two_def)
    apply (simp add: respawn_safety_def rd_def)
    apply (simp add: integration_def rd_def wr_def GRAVITY_def FRICTION_AIR_def dt_def f32_eval)
    apply (simp add: max_velocity_def max_velocity_x_def max_velocity_y_def MAX_VEL_def rd_def wr_def f32_eval)
    apply (simp add: move_def rd_def wr_def dt_def f32_eval)
    apply (simp add: boundaries_def boundaries_x_def boundaries_y_def rd_def wr_def
        BOUNCE_WALL_def BOUNCE_GROUND_def f32_eval)
    apply (simp add: insert_grid_def rd_def wrI_def rdI_def Let_def cell_x_def cell_y_def in_grid_def
        CELL_SIZE_def trunc_def wrap32_def)
    done
qed

lemma s_fast_pass2:
  "pass2 e_two \<lparr>px = [Fin (9000277 / 262144), Fin (8607061 / 262144)], py = [Fin (14592683 / 524288), Fin (13544107 / 524288)],
         pvx = [Fin 250, Fin 250], pvy = [Fin (- 250), Fin 250],
         pradius = [Fin (5 / 2), Fin (5 / 2)], gridHead = (replicate 25 (- 1))[12 := 1],
         nextParticle = [- 1, 0]\<rparr>
     = \<lparr>px = [Fin (9196885 / 262144), Fin (8410453 / 262144)], py = [Fin (15116971 / 524288), Fin (13019819 / 524288)],
         pvx = [Fin 370, Fin 130], pvy = [Fin (- 90), Fin 90],
         pradius = [Fin (5 / 2), Fin (5 / 2)], gridHead = (replicate 25 (- 1))[12 := 1],
         nextParticle = [- 1, 0]\<rparr>"
    (is "pass2 e_two ?s1 = ?s2")
proof -
  have c0: "cell_x ?s1 0 = 2" "cell_y ?s1 0 = 2"
    by (simp_all add: cell_x_def cell_y_def rd_def CELL_SIZE_def trunc_def wrap32_def)
  have r0: "resolve_pair 0 (Some 1) ?s1 = ?s2"
    apply (simp add: resolve_pair_def Let_def rd_def sqrt_25_4)
    apply (simp add: positional_correction_def velocity_response_def Let_def rd_def wr_def)
    apply (simp add: f32_eval)
    done
  have "walk 0 (Some 1) 0 ?s1 = walk 0 (Some 0) 1 ?s2"
    by (subst walk.simps) (simp add: r0 rdI_def Let_def)
  also have "\<dots> = (?s2, 2)"
    by (subst walk.simps) (simp add: rdI_def walk_end)
  finally have w0: "walk 0 (Some 1) 0 ?s1 = (?s2, 2)" .
  have own0: "scan_cell e_two 0 2 2 ?s1 = (?s2, 2)"
    using w0 by (simp add: scan_cell_def e_two_grid rdI_def)
  have p0: "pass2_particle e_two 0 ?s1 = ?s2"
    by (simp add: pass2_particle_def neighbourhood_def c0 own0 scan_cell_outside scan_cell_empty
        e_two_grid rdI_def)
  have c1: "cell_x ?s2 (Suc 0) = 2" "cell_y ?s2 (Suc 0) = 2"
    by (simp_all add: cell_x_def cell_y_def rd_def CELL_SIZE_def trunc_def wrap32_def)
  have r1: "resolve_pair (Suc 0) (Some 0) ?s2 = ?s2"
    by (simp add: resolve_pair_def Let_def rd_def)
  have "walk (Suc 0) (Some 1) 0 ?s2 = walk (Suc 0) (Some 0) 1 ?s2"
    by (subst walk.simps) (simp add: rdI_def)
  also have "\<dots> = (?s2, 2)"
    by (subst walk.simps) (simp add: r1 rdI_def walk_end Let_def)
  finally have w1: "walk (Suc 0) (Some 1) 0 ?s2 = (?s2, 2)" .
  have own1: "scan_cell e_two (Suc 0) 2 2 ?s2 = (?s2, 2)"
    using w1 by (simp add: scan_cell_def e_two_grid rdI_def)
  have p1: "pass2_particle e_two (Suc 0) ?s2 = ?s2"
    by (simp add: pass2_particle_def neighbourhood_def c1 own1 scan_cell_outside scan_cell_empty
        e_two_grid rdI_def)
  show ?thesis unfolding pass2_two p0 p1 ..
qed


theorem tick_exceeds_max_vel_counterexample:
  "finite_hands [] \<and> finite_screen e_two
   \<and> finite_particle s_fast (int 0) \<and> finite_particle s_fast 1
   \<and> rd (pvx (tick e_two [] (\<lambda>_. 1 / 2) s_fast)) (int 0) = Fin 370
   \<and> MAX_VEL < rd (pvx (tick e_two [] (\<lambda>_. 1 / 2) s_fast)) (int 0)
   \<and> \<not> speed_limited (tick e_two [] (\<lambda>_. 1 / 2) s_fast) 0"
proof -
  have t: "tick e_two [] (\<lambda>_. 1 / 2) s_fast
     = \<lparr>px = [Fin (9196885 / 262144), Fin (8410453 / 262144)], py = [Fin (15116971 / 524288), Fin (13019819 / 524288)],
         pvx = [Fin 370, Fin 130], pvy = [Fin (- 90), Fin 90],
         pradius = [Fin (5 / 2), Fin (5 / 2)], gridHead = (replicate 25 (- 1))[12 := 1],
         nextParticle = [- 1, 0]\<rparr>"
    unfolding tick_def s_fast_pass1 s_fast_pass2 ..
  have "finite_hands []" "finite_screen e_two"
    "finite_particle s_fast (int 0)" "finite_particle s_fast 1"
    by (simp_all add: finite_hands_def finite_screen_def e_two_def finite_particle_def s_fast_def rd_def)
  then show ?thesis
    unfolding t by (simp add: speed_limited_def MAX_VEL_def rd_def)
qed


subsection \<open>What Pass 2 preserves\<close>

lemma walk_preserves:
  assumes step: "\<And>i j s. P s \<Longrightarrow> P (resolve_pair i j s)"
  shows "P s \<Longrightarrow> P (fst (walk i j k s))"
proof (induction i j k s rule: walk.induct)
  case (1 i j iterations s)
  show ?case
  proof (cases "j \<noteq> Some (- 1) \<and> iterations < 50")
    case True
    define s1 where "s1 = (if j \<noteq> Some (int i) then resolve_pair i j s else s)"
    have w: "walk i j iterations s = walk i (rdIo (nextParticle s1) j) (Suc iterations) s1"
      using True by (subst walk.simps) (simp add: s1_def Let_def)
    have "P s1" using "1.prems" step by (simp add: s1_def)
    then show ?thesis using "1.IH"[OF True s1_def] w by simp
  next
    case False
    then have "walk i j iterations s = (s, iterations)"
      by (subst walk.simps) auto
    then show ?thesis using "1.prems" by simp
  qed
qed

lemma scan_cell_preserves:
  assumes "\<And>i j s. P s \<Longrightarrow> P (resolve_pair i j s)" and "P s"
  shows "P (fst (scan_cell e i ncx ncy s))"
  using walk_preserves[of P, OF assms] assms(2) by (simp add: scan_cell_def)

lemma row_preserves:
  assumes step: "\<And>i j s. P s \<Longrightarrow> P (resolve_pair i j s)"
  shows "P s \<Longrightarrow>
    P (fst (fold (\<lambda>dx (s1, n). case scan_cell e i (cx + dx) cy s1 of (s2, k) \<Rightarrow> (s2, n + k)) ds (s, m)))"
proof (induction ds arbitrary: s m)
  case Nil
  then show ?case by simp
next
  case (Cons d ds)
  obtain s2 k where sc: "scan_cell e i (cx + d) cy s = (s2, k)" by (cases "scan_cell e i (cx + d) cy s")
  have "P s2" using scan_cell_preserves[of P s e i "cx + d" cy, OF step Cons.prems] sc by simp
  then show ?case using Cons.IH[of s2 "m + k"] sc by simp
qed

lemma rows_preserves:
  assumes step: "\<And>i j s. P s \<Longrightarrow> P (resolve_pair i j s)"
  shows "P s \<Longrightarrow>
    P (fst (fold (\<lambda>dy. fold (\<lambda>dx (s1, n). case scan_cell e i (cx + dx) (cy + dy) s1 of
                                       (s2, k) \<Rightarrow> (s2, n + k)) ds) es (s, m)))"
proof (induction es arbitrary: s m)
  case Nil
  then show ?case by simp
next
  case (Cons d es)
  obtain s2 k where r: "fold (\<lambda>dx (s1, n). case scan_cell e i (cx + dx) (cy + d) s1 of (s2, k) \<Rightarrow> (s2, n + k)) ds (s, m) = (s2, k)"
    by (cases "fold (\<lambda>dx (s1, n). case scan_cell e i (cx + dx) (cy + d) s1 of (s2, k) \<Rightarrow> (s2, n + k)) ds (s, m)")
  have "P s2" using row_preserves[of P s e i cx "cy + d" ds m, OF step Cons.prems] r by simp
  then show ?case using Cons.IH[of s2 k] r by simp
qed

lemma pass2_particle_preserves:
  assumes "\<And>i j s. P s \<Longrightarrow> P (resolve_pair i j s)" and "P s"
  shows "P (pass2_particle e i s)"
  unfolding pass2_particle_def neighbourhood_def by (rule rows_preserves[of P, OF assms])

lemma pass2_preserves:
  assumes step: "\<And>i j s. P s \<Longrightarrow> P (resolve_pair i j s)" and "P s"
  shows "P (pass2 e s)"
proof -
  have "P (fold (pass2_particle e) is s)" for "is"
    using assms(2)
  proof (induction "is" arbitrary: s)
    case Nil
    then show ?case by simp
  next
    case (Cons i "is")
    have "P (pass2_particle e i s)" by (rule pass2_particle_preserves[of P, OF step Cons.prems])
    then show ?case using Cons.IH by simp
  qed
  then show ?thesis by (simp add: pass2_def)
qed

lemma resolve_pair_grid [simp]:
  "gridHead (resolve_pair i j s) = gridHead s" "nextParticle (resolve_pair i j s) = nextParticle s"
  by (simp_all add: resolve_pair_def positional_correction_def velocity_response_def Let_def)

lemma pass2_radius: "pradius (pass2 e s) = pradius s"
  by (rule pass2_preserves[of "\<lambda>t. pradius t = pradius s"]) simp_all

lemma pass2_grid: "gridHead (pass2 e s) = gridHead s \<and> nextParticle (pass2 e s) = nextParticle s"
  by (rule pass2_preserves[of "\<lambda>t. gridHead t = gridHead s \<and> nextParticle t = nextParticle s"]) simp_all


lemma self_difference: "(a - a) * (a - a) = Fin 0 \<or> (a - a) * (a - a) = (NaN::num)"
  by (cases a) (simp_all add: minus_num_def)

lemma resolve_pair_self: "resolve_pair i (Some (int i)) s = s"
proof -
  have "\<not> Fin 0.001 < a + b" if "a = Fin 0 \<or> a = NaN" "b = Fin 0 \<or> b = NaN" for a b :: num
    using that by auto
  then have "\<not> Fin 0.001 < (rd (px s) (int i) - rd (px s) (int i)) * (rd (px s) (int i) - rd (px s) (int i))
      + (rd (py s) (int i) - rd (py s) (int i)) * (rd (py s) (int i) - rd (py s) (int i))"
    using self_difference by blast
  then show ?thesis by (simp add: resolve_pair_def Let_def)
qed

lemma resolve_pair_not_overlapping: "\<not> overlapping s i j \<Longrightarrow> resolve_pair i j s = s"
  by (auto simp add: resolve_pair_def overlapping_def pair_distSq_def pair_rSum_def Let_def)

lemma less_both_finite:
  assumes "Fin c < a" and "a < b"
  shows "isFinite (a::num)"
  using assms by (cases a; cases b) simp_all

lemma sum_finite: "isFinite (a + b) \<Longrightarrow> isFinite a \<and> isFinite (b::num)"
  by (cases a; cases b) simp_all

lemma square_finite: "isFinite (a * a) \<Longrightarrow> isFinite (a::num)"
  by (cases a) simp_all

lemma difference_finite: "isFinite (a - b) \<Longrightarrow> isFinite a \<and> isFinite (b::num)"
  by (cases a; cases b) (simp_all add: minus_num_def)

lemma overlapping_range:
  assumes "overlapping s i j"
  shows "int i < int (length (px s)) \<and> (\<exists>k. j = Some k \<and> 0 \<le> k \<and> k < int (length (px s)))"
proof -
  have "isFinite (pair_distSq s i j)"
    using assms less_both_finite unfolding overlapping_def by blast
  then have "isFinite (rd (px s) (int i) - rdo (px s) j)"
    unfolding pair_distSq_def Let_def by (blast dest: sum_finite square_finite)
  then have f: "isFinite (rd (px s) (int i))" "isFinite (rdo (px s) j)"
    by (blast dest: difference_finite)+
  obtain k where j: "j = Some k" using f(2) by (cases j) simp_all
  show ?thesis
    using rd_range[OF f(1)] rd_range[of "px s" k] f(2) j by simp
qed

lemma apart_no_move:
  assumes "apart e s" and "length (px s) = particleCount e"
  shows "resolve_pair i j s = s"
proof (cases "j = Some (int i)")
  case True
  then show ?thesis by (simp add: resolve_pair_self)
next
  case False
  have "\<not> overlapping s i j"
  proof
    assume ov: "overlapping s i j"
    then obtain k where k: "i < particleCount e" "j = Some k" "0 \<le> k" "k < int (particleCount e)"
      using overlapping_range[OF ov] assms(2) by auto
    then have "nat k < particleCount e" "nat k \<noteq> i" "int (nat k) = k" using False by auto
    then have "\<not> overlapping s i (Some k)"
      using assms(1) k(1) unfolding apart_def list_all_iff by (metis atLeast0LessThan lessThan_iff set_upt)
    then show False using ov k(2) by simp
  qed
  then show ?thesis by (rule resolve_pair_not_overlapping)
qed

lemma apart_pass2:
  assumes "apart e s" and "length (px s) = particleCount e"
  shows "pass2 e s = s"
proof (rule pass2_preserves[of "\<lambda>t. t = s"])
  fix i j t assume "t = s"
  then show "resolve_pair i j t = s" using apart_no_move[OF assms] by simp
qed simp



subsection \<open>The fault check\<close>

lemma rd_update_other: "k \<noteq> int i \<Longrightarrow> rd (xs[i := v]) k = rd xs k"
  by (auto simp: rd_def)

lemma wr_update_swap: "k \<noteq> int i \<Longrightarrow> wr (xs[i := v]) k w = (wr xs k w)[i := v]"
  by (auto simp: wr_def list_update_swap)

lemma respawn_safety_default:
  assumes "k \<noteq> i"
  shows "respawn_safety e rnd k (safe_default e rnd i s) = safe_default e rnd i (respawn_safety e rnd k s)"
  using assms by (simp add: respawn_safety_def safe_default_def rd_update_other wr_update_swap)

lemma hand_interaction_default:
  assumes "k \<noteq> i"
  shows "hand_interaction e k h (safe_default e rnd i s, ax, ay)
     = (case hand_interaction e k h (s, ax, ay) of (s1, a, b) \<Rightarrow> (safe_default e rnd i s1, a, b))"
  using assms by (simp add: hand_interaction_def safe_default_def Let_def rd_update_other wr_update_swap)

lemma hands_fold_default:
  assumes "k \<noteq> i"
  shows "fold (hand_interaction e k) hands (safe_default e rnd i s, ax, ay)
     = (case fold (hand_interaction e k) hands (s, ax, ay) of (s1, a, b) \<Rightarrow> (safe_default e rnd i s1, a, b))"
proof (induction hands arbitrary: s ax ay)
  case Nil
  then show ?case by simp
next
  case (Cons h hands)
  obtain s1 a b where st: "hand_interaction e k h (s, ax, ay) = (s1, a, b)"
    by (cases "hand_interaction e k h (s, ax, ay)")
  show ?case using Cons.IH[of s1 a b] by (simp add: hand_interaction_default[OF assms] st)
qed

lemma integration_default:
  assumes "k \<noteq> i"
  shows "integration k ax ay (safe_default e rnd i s) = safe_default e rnd i (integration k ax ay s)"
  using assms by (simp add: integration_def safe_default_def Let_def rd_update_other wr_update_swap)

lemma max_velocity_default:
  assumes "k \<noteq> i"
  shows "max_velocity k (safe_default e rnd i s) = safe_default e rnd i (max_velocity k s)"
proof -
  have x: "max_velocity_x k (safe_default e rnd i s) = safe_default e rnd i (max_velocity_x k s)" for s
    using assms by (simp add: max_velocity_x_def safe_default_def rd_update_other wr_update_swap)
  have y: "max_velocity_y k (safe_default e rnd i s) = safe_default e rnd i (max_velocity_y k s)" for s
    using assms by (simp add: max_velocity_y_def safe_default_def rd_update_other wr_update_swap)
  show ?thesis by (simp add: max_velocity_def x y)
qed

lemma move_default:
  assumes "k \<noteq> i"
  shows "move k (safe_default e rnd i s) = safe_default e rnd i (move k s)"
  using assms by (simp add: move_def safe_default_def Let_def rd_update_other wr_update_swap)

lemma boundaries_default:
  assumes "k \<noteq> i"
  shows "boundaries e k (safe_default e rnd i s) = safe_default e rnd i (boundaries e k s)"
proof -
  have x: "boundaries_x e k (safe_default e rnd i s) = safe_default e rnd i (boundaries_x e k s)" for s
    using assms by (simp add: boundaries_x_def safe_default_def Let_def rd_update_other wr_update_swap)
  have y: "boundaries_y e k (safe_default e rnd i s) = safe_default e rnd i (boundaries_y e k s)" for s
    using assms by (simp add: boundaries_y_def safe_default_def Let_def rd_update_other wr_update_swap)
  show ?thesis by (simp add: boundaries_def x y)
qed

lemma insert_grid_default:
  assumes "k \<noteq> i"
  shows "insert_grid e k (safe_default e rnd i s) = safe_default e rnd i (insert_grid e k s)"
  using assms
  by (simp add: insert_grid_def safe_default_def Let_def cell_x_def cell_y_def rd_update_other)

lemma pass1_particle_default:
  assumes "k \<noteq> i"
  shows "pass1_particle e hands rnd k (safe_default e rnd i s)
     = safe_default e rnd i (pass1_particle e hands rnd k s)"
proof -
  obtain s1 ax ay where h: "hands_loop e k hands (respawn_safety e rnd k s) = (s1, ax, ay)"
    by (cases "hands_loop e k hands (respawn_safety e rnd k s)")
  have h': "hands_loop e k hands (safe_default e rnd i (respawn_safety e rnd k s))
      = (safe_default e rnd i s1, ax, ay)"
    using h by (simp add: hands_loop_def hands_fold_default[OF assms])
  show ?thesis
    by (simp add: pass1_particle_def h h' respawn_safety_default[OF assms] integration_default[OF assms]
        max_velocity_default[OF assms] move_default[OF assms] boundaries_default[OF assms]
        insert_grid_default[OF assms])
qed

lemma pass1_fold_default:
  assumes "\<forall>k\<in>set ks. k \<noteq> i"
  shows "fold (pass1_particle e hands rnd) ks (safe_default e rnd i s)
     = safe_default e rnd i (fold (pass1_particle e hands rnd) ks s)"
  using assms
proof (induction ks arbitrary: s)
  case Nil
  then show ?case by simp
next
  case (Cons k ks)
  then show ?case by (simp add: pass1_particle_default)
qed

lemma pass1_fold_untouched:
  assumes "\<forall>k\<in>set ks. k \<noteq> i"
  shows "rd (px (fold (pass1_particle e hands rnd) ks s)) (int i) = rd (px s) (int i)
       \<and> rd (py (fold (pass1_particle e hands rnd) ks s)) (int i) = rd (py s) (int i)
       \<and> length (px (fold (pass1_particle e hands rnd) ks s)) = length (px s)
       \<and> length (py (fold (pass1_particle e hands rnd) ks s)) = length (py s)
       \<and> length (pvx (fold (pass1_particle e hands rnd) ks s)) = length (pvx s)
       \<and> length (pvy (fold (pass1_particle e hands rnd) ks s)) = length (pvy s)"
  using assms
proof (induction ks arbitrary: s)
  case Nil
  then show ?case by simp
next
  case (Cons k ks)
  have "same_elsewhere k s (pass1_particle e hands rnd k s)" by (rule pass1_particle_frame)
  moreover have "int i \<noteq> int k" using Cons.prems by simp
  ultimately show ?case
    using Cons.IH[of "pass1_particle e hands rnd k s"] Cons.prems
    by (simp add: same_elsewhere_def)
qed

lemma grid_reset_default: "grid_reset (safe_default e rnd i s) = safe_default e rnd i (grid_reset s)"
  by (simp add: grid_reset_def safe_default_def)

lemma respawn_writes_default:
  assumes "i < length (px s)" and "i < length (py s)" and "i < length (pvx s)" and "i < length (pvy s)"
    and "\<not> isFinite (rd (px s) (int i)) \<or> \<not> isFinite (rd (py s) (int i))"
  shows "respawn_safety e rnd i s = safe_default e rnd i s"
  using assms by (auto simp add: respawn_safety_def safe_default_def wr_eq_update)

lemma respawn_after_default:
  assumes "i < length (px s)" and "i < length (py s)" and "i < length (pvx s)" and "i < length (pvy s)"
  shows "respawn_safety e rnd i (safe_default e rnd i s) = safe_default e rnd i s"
  using assms by (simp add: respawn_safety_def safe_default_def wr_eq_update)

lemma pass1_from_reached:
  assumes "i < particleCount e"
  shows "pass1 e hands rnd (grid_reset s)
     = fold (pass1_particle e hands rnd) [i..<particleCount e] (reached e hands rnd i s)"
proof -
  have "[0..<particleCount e] = [0..<i] @ [i..<particleCount e]"
    using assms by (metis le_add_diff_inverse less_imp_le_nat upt_add_eq_append zero_le)
  then show ?thesis by (simp add: pass1_def reached_def)
qed

lemma one_particle_pass2: "length (px s) = 1 \<Longrightarrow> pass2 e_one s = s"
  by (rule apart_pass2) (simp_all add: apart_def e_one_def)

text \<open>
  C6 (as amended). The fault check looks at the position only. If the \<open>x\<close> or \<open>y\<close> of
  particle \<open>i\<close> is not finite at the start of a tick, the check of Pass 1 writes the safe
  default \<open>(random * screenW, screenH - 50)\<close> with zero velocity when the loop reaches the
  particle, and the tick ends as it does from the arrays with the particle at the safe
  default. If the position is finite, the check leaves the arrays as they are when the
  loop reaches the particle, whatever the velocity. In both cases Pass 1 continues from
  the arrays reached.
\<close>

theorem tick_respawns_on_position:
  assumes "well_sized e s" and "i < particleCount e"
  shows "(\<not> isFinite (rd (px s) (int i)) \<or> \<not> isFinite (rd (py s) (int i)) \<longrightarrow>
            respawn_safety e rnd i (reached e hands rnd i s)
              = safe_default e rnd i (reached e hands rnd i s)
          \<and> tick e hands rnd s = tick e hands rnd (safe_default e rnd i s))
       \<and> (isFinite (rd (px s) (int i)) \<and> isFinite (rd (py s) (int i)) \<longrightarrow>
            respawn_safety e rnd i (reached e hands rnd i s) = reached e hands rnd i s)
       \<and> pass1 e hands rnd (grid_reset s)
           = fold (pass1_particle e hands rnd) [i..<particleCount e] (reached e hands rnd i s)"
proof -
  define r where "r = reached e hands rnd i s"
  have before: "\<forall>k\<in>set [0..<i]. k \<noteq> i" by simp
  have u: "rd (px r) (int i) = rd (px s) (int i)" "rd (py r) (int i) = rd (py s) (int i)"
    "i < length (px r)" "i < length (py r)" "i < length (pvx r)" "i < length (pvy r)"
    using pass1_fold_untouched[OF before, of e hands rnd "grid_reset s"] assms
    by (simp_all add: r_def reached_def grid_reset_def well_sized_def)
  have fin: "respawn_safety e rnd i r = r"
    if "isFinite (rd (px s) (int i)) \<and> isFinite (rd (py s) (int i))"
    using that u(1,2) by (simp add: respawn_safety_finite)
  have cont: "pass1 e hands rnd (grid_reset t)
     = fold (pass1_particle e hands rnd) [i..<particleCount e] (reached e hands rnd i t)" for t
    by (rule pass1_from_reached[OF assms(2)])
  have l: "[i..<particleCount e] = i # [Suc i..<particleCount e]"
    using assms(2) by (simp add: upt_conv_Cons)
  have nonfin: "respawn_safety e rnd i r = safe_default e rnd i r
      \<and> tick e hands rnd s = tick e hands rnd (safe_default e rnd i s)"
    if n: "\<not> isFinite (rd (px s) (int i)) \<or> \<not> isFinite (rd (py s) (int i))"
  proof -
    have a: "respawn_safety e rnd i r = safe_default e rnd i r"
      using n u by (intro respawn_writes_default) simp_all
    have b: "respawn_safety e rnd i (safe_default e rnd i r) = safe_default e rnd i r"
      by (rule respawn_after_default[OF u(3-6)])
    have c: "reached e hands rnd i (safe_default e rnd i s) = safe_default e rnd i r"
      unfolding reached_def r_def grid_reset_default by (rule pass1_fold_default[OF before])
    have "pass1_particle e hands rnd i (safe_default e rnd i r) = pass1_particle e hands rnd i r"
      by (simp add: pass1_particle_def a b)
    then have "pass1 e hands rnd (grid_reset (safe_default e rnd i s)) = pass1 e hands rnd (grid_reset s)"
      unfolding cont c l by (simp add: r_def)
    then show ?thesis using a by (simp add: tick_def)
  qed
  show ?thesis using fin nonfin cont[of s] unfolding r_def by blast
qed

lemma s_nan_position_pass1:
  "pass1 e_one [] (\<lambda>_. 1 / 2) (grid_reset s_nan_position)
     = \<lparr>px = [Fin 12], py = [Fin 2], pvx = [Fin 0], pvy = [Fin (- (9865003 / 67108864))],
         pradius = [Fin 2], gridHead = [- 1, 0, - 1, - 1], nextParticle = [- 1]\<rparr>"
  apply (simp add: pass1_def pass1_particle_def hands_loop_def e_one_def)
  apply (simp add: s_nan_position_def grid_reset_def respawn_safety_def rd_def wr_def f32_eval)
  apply (simp add: integration_def rd_def wr_def GRAVITY_def FRICTION_AIR_def dt_def f32_eval)
  apply (simp add: max_velocity_def max_velocity_x_def max_velocity_y_def MAX_VEL_def rd_def wr_def f32_eval)
  apply (simp add: move_def rd_def wr_def dt_def f32_eval)
  apply (simp add: boundaries_def boundaries_x_def boundaries_y_def rd_def wr_def BOUNCE_WALL_def
      BOUNCE_GROUND_def f32_eval)
  apply (simp add: insert_grid_def rd_def wrI_def rdI_def Let_def cell_x_def cell_y_def in_grid_def
      CELL_SIZE_def trunc_def wrap32_def)
  done

theorem tick_respawns_on_position_witness:
  "well_sized e_one s_nan_position \<and> 0 < particleCount e_one
   \<and> \<not> isFinite (rd (px s_nan_position) (int 0))
   \<and> safe_default e_one (\<lambda>_. 1 / 2) 0 s_nan_position
       = \<lparr>px = [Fin 12], py = [Fin (- 26)], pvx = [Fin 0], pvy = [Fin 0],
           pradius = [Fin 2], gridHead = [- 1, - 1, - 1, - 1], nextParticle = [- 1]\<rparr>
   \<and> respawn_safety e_one (\<lambda>_. 1 / 2) 0 (reached e_one [] (\<lambda>_. 1 / 2) 0 s_nan_position)
       = safe_default e_one (\<lambda>_. 1 / 2) 0 (reached e_one [] (\<lambda>_. 1 / 2) 0 s_nan_position)
   \<and> tick e_one [] (\<lambda>_. 1 / 2) s_nan_position
       = tick e_one [] (\<lambda>_. 1 / 2) (safe_default e_one (\<lambda>_. 1 / 2) 0 s_nan_position)
   \<and> tick e_one [] (\<lambda>_. 1 / 2) s_nan_position
       = \<lparr>px = [Fin 12], py = [Fin 2], pvx = [Fin 0], pvy = [Fin (- (9865003 / 67108864))],
           pradius = [Fin 2], gridHead = [- 1, 0, - 1, - 1], nextParticle = [- 1]\<rparr>"
proof -
  have h: "well_sized e_one s_nan_position" "0 < particleCount e_one"
    by (simp_all add: well_sized_def e_one_def s_nan_position_def)
  have n: "\<not> isFinite (rd (px s_nan_position) (int 0))"
    by (simp add: s_nan_position_def rd_def)
  have d: "safe_default e_one (\<lambda>_. 1 / 2) 0 s_nan_position
       = \<lparr>px = [Fin 12], py = [Fin (- 26)], pvx = [Fin 0], pvy = [Fin 0],
           pradius = [Fin 2], gridHead = [- 1, - 1, - 1, - 1], nextParticle = [- 1]\<rparr>"
    by (simp add: safe_default_def s_nan_position_def e_one_def f32_eval)
  have t: "tick e_one [] (\<lambda>_. 1 / 2) s_nan_position
       = \<lparr>px = [Fin 12], py = [Fin 2], pvx = [Fin 0], pvy = [Fin (- (9865003 / 67108864))],
           pradius = [Fin 2], gridHead = [- 1, 0, - 1, - 1], nextParticle = [- 1]\<rparr>"
    unfolding tick_def s_nan_position_pass1 by (rule one_particle_pass2) simp
  have "respawn_safety e_one (\<lambda>_. 1 / 2) 0 (reached e_one [] (\<lambda>_. 1 / 2) 0 s_nan_position)
       = safe_default e_one (\<lambda>_. 1 / 2) 0 (reached e_one [] (\<lambda>_. 1 / 2) 0 s_nan_position)"
    "tick e_one [] (\<lambda>_. 1 / 2) s_nan_position
       = tick e_one [] (\<lambda>_. 1 / 2) (safe_default e_one (\<lambda>_. 1 / 2) 0 s_nan_position)"
    using tick_respawns_on_position[OF h, of "\<lambda>_. 1 / 2" "[]"] n by blast+
  then show ?thesis using h n d t by blast
qed

lemma s_nan_velocity_pass1:
  "pass1 e_one [] (\<lambda>_. 1 / 2) (grid_reset s_nan_velocity)
     = \<lparr>px = [NaN], py = [Fin (10528577 / 1048576)], pvx = [NaN], pvy = [Fin (2055209 / 4194304)],
         pradius = [Fin 2], gridHead = [0, - 1, - 1, - 1], nextParticle = [- 1]\<rparr>"
  apply (simp add: pass1_def pass1_particle_def hands_loop_def e_one_def)
  apply (simp add: s_nan_velocity_def grid_reset_def respawn_safety_def rd_def)
  apply (simp add: integration_def rd_def wr_def GRAVITY_def FRICTION_AIR_def dt_def f32_eval)
  apply (simp add: max_velocity_def max_velocity_x_def max_velocity_y_def MAX_VEL_def rd_def wr_def f32_eval)
  apply (simp add: move_def rd_def wr_def dt_def f32_eval)
  apply (simp add: boundaries_def boundaries_x_def boundaries_y_def rd_def wr_def BOUNCE_WALL_def
      BOUNCE_GROUND_def f32_eval)
  apply (simp add: insert_grid_def rd_def wrI_def rdI_def Let_def cell_x_def cell_y_def in_grid_def
      CELL_SIZE_def trunc_def wrap32_def)
  done

lemma s_default_pass1:
  "pass1 e_one [] (\<lambda>_. 1 / 2) (grid_reset \<lparr>px = [Fin 12], py = [Fin (- 26)], pvx = [Fin 0], pvy = [Fin 0],
           pradius = [Fin 2], gridHead = [- 1, - 1, - 1, - 1], nextParticle = [- 1]\<rparr>)
     = \<lparr>px = [Fin 12], py = [Fin 2], pvx = [Fin 0], pvy = [Fin (- (9865003 / 67108864))],
         pradius = [Fin 2], gridHead = [- 1, 0, - 1, - 1], nextParticle = [- 1]\<rparr>"
  apply (simp add: pass1_def pass1_particle_def hands_loop_def e_one_def)
  apply (simp add: grid_reset_def respawn_safety_def rd_def)
  apply (simp add: integration_def rd_def wr_def GRAVITY_def FRICTION_AIR_def dt_def f32_eval)
  apply (simp add: max_velocity_def max_velocity_x_def max_velocity_y_def MAX_VEL_def rd_def wr_def f32_eval)
  apply (simp add: move_def rd_def wr_def dt_def f32_eval)
  apply (simp add: boundaries_def boundaries_x_def boundaries_y_def rd_def wr_def BOUNCE_WALL_def
      BOUNCE_GROUND_def f32_eval)
  apply (simp add: insert_grid_def rd_def wrI_def rdI_def Let_def cell_x_def cell_y_def in_grid_def
      CELL_SIZE_def trunc_def wrap32_def)
  done

theorem respawn_velocity_counterexample:
  "\<not> isFinite (rd (pvx s_nan_velocity) (int 0))
   \<and> respawn_safety e_one (\<lambda>_. 1 / 2) 0 (reached e_one [] (\<lambda>_. 1 / 2) 0 s_nan_velocity)
       = reached e_one [] (\<lambda>_. 1 / 2) 0 s_nan_velocity
   \<and> tick e_one [] (\<lambda>_. 1 / 2) s_nan_velocity
       = \<lparr>px = [NaN], py = [Fin (10528577 / 1048576)], pvx = [NaN], pvy = [Fin (2055209 / 4194304)],
           pradius = [Fin 2], gridHead = [0, - 1, - 1, - 1], nextParticle = [- 1]\<rparr>
   \<and> tick e_one [] (\<lambda>_. 1 / 2) s_nan_velocity
       \<noteq> tick e_one [] (\<lambda>_. 1 / 2) (safe_default e_one (\<lambda>_. 1 / 2) 0 s_nan_velocity)"
proof -
  have t: "tick e_one [] (\<lambda>_. 1 / 2) s_nan_velocity
     = \<lparr>px = [NaN], py = [Fin (10528577 / 1048576)], pvx = [NaN], pvy = [Fin (2055209 / 4194304)],
         pradius = [Fin 2], gridHead = [0, - 1, - 1, - 1], nextParticle = [- 1]\<rparr>"
    unfolding tick_def s_nan_velocity_pass1 by (rule one_particle_pass2) simp
  have d: "safe_default e_one (\<lambda>_. 1 / 2) 0 s_nan_velocity
       = \<lparr>px = [Fin 12], py = [Fin (- 26)], pvx = [Fin 0], pvy = [Fin 0],
           pradius = [Fin 2], gridHead = [- 1, - 1, - 1, - 1], nextParticle = [- 1]\<rparr>"
    by (simp add: safe_default_def s_nan_velocity_def e_one_def f32_eval)
  have u: "tick e_one [] (\<lambda>_. 1 / 2) (safe_default e_one (\<lambda>_. 1 / 2) 0 s_nan_velocity)
     = \<lparr>px = [Fin 12], py = [Fin 2], pvx = [Fin 0], pvy = [Fin (- (9865003 / 67108864))],
           pradius = [Fin 2], gridHead = [- 1, 0, - 1, - 1], nextParticle = [- 1]\<rparr>"
    unfolding tick_def d s_default_pass1 by (rule one_particle_pass2) simp
  have r: "respawn_safety e_one (\<lambda>_. 1 / 2) 0 (reached e_one [] (\<lambda>_. 1 / 2) 0 s_nan_velocity)
       = reached e_one [] (\<lambda>_. 1 / 2) 0 s_nan_velocity"
    by (simp add: reached_def grid_reset_def s_nan_velocity_def respawn_safety_def rd_def)
  have "\<not> isFinite (rd (pvx s_nan_velocity) (int 0))"
    by (simp add: s_nan_velocity_def rd_def)
  then show ?thesis using t u r by simp
qed

subsection \<open>The grid built by Pass 1\<close>

lemma hands_fold_grid:
  "gridHead (fst (fold (hand_interaction e i) hands (s, ax, ay))) = gridHead s
   \<and> nextParticle (fst (fold (hand_interaction e i) hands (s, ax, ay))) = nextParticle s"
proof (induction hands arbitrary: s ax ay)
  case Nil
  then show ?case by simp
next
  case (Cons h hands)
  obtain s1 ax1 ay1 where st: "hand_interaction e i h (s, ax, ay) = (s1, ax1, ay1)"
    by (cases "hand_interaction e i h (s, ax, ay)")
  have "gridHead (fst (hand_interaction e i h (s, ax, ay))) = gridHead s"
    "nextParticle (fst (hand_interaction e i h (s, ax, ay))) = nextParticle s"
    by (simp_all add: hand_interaction_def Let_def)
  then have "gridHead s1 = gridHead s" "nextParticle s1 = nextParticle s" using st by simp_all
  then show ?case using Cons.IH[of s1 ax1 ay1] st by simp
qed

lemma stage_grid [simp]:
  "gridHead (respawn_safety e rnd i s) = gridHead s"
  "nextParticle (respawn_safety e rnd i s) = nextParticle s"
  "gridHead (integration i ax ay s) = gridHead s"
  "nextParticle (integration i ax ay s) = nextParticle s"
  "gridHead (max_velocity i s) = gridHead s"
  "nextParticle (max_velocity i s) = nextParticle s"
  "gridHead (move i s) = gridHead s"
  "nextParticle (move i s) = nextParticle s"
  "gridHead (boundaries e i s) = gridHead s"
  "nextParticle (boundaries e i s) = nextParticle s"
  by (simp_all add: respawn_safety_def integration_def max_velocity_def max_velocity_x_def
      max_velocity_y_def move_def boundaries_def boundaries_x_def boundaries_y_def Let_def)

lemma pass1_particle_insert:
  "\<exists>s5. pass1_particle e hands rnd i s = insert_grid e i s5
        \<and> gridHead s5 = gridHead s \<and> nextParticle s5 = nextParticle s
        \<and> same_elsewhere i s s5"
proof -
  obtain s1 ax ay where h: "hands_loop e i hands (respawn_safety e rnd i s) = (s1, ax, ay)"
    by (cases "hands_loop e i hands (respawn_safety e rnd i s)")
  define s5 where "s5 = boundaries e i (move i (max_velocity i (integration i ax ay s1)))"
  have g1: "gridHead s1 = gridHead s" "nextParticle s1 = nextParticle s"
    using hands_fold_grid[of e i hands "respawn_safety e rnd i s" "Fin 0" GRAVITY] h
    by (simp_all add: hands_loop_def)
  have "same_elsewhere i (respawn_safety e rnd i s) s1"
    using hands_fold_frame[of i "respawn_safety e rnd i s" e hands "Fin 0" GRAVITY] h
    by (simp add: hands_loop_def)
  then have 1: "same_elsewhere i s s1"
    by (rule same_elsewhere_trans[OF respawn_safety_frame])
  have 2: "same_elsewhere i s (integration i ax ay s1)"
    by (rule same_elsewhere_trans[OF 1 integration_frame])
  have 3: "same_elsewhere i s (max_velocity i (integration i ax ay s1))"
    by (rule same_elsewhere_trans[OF 2 max_velocity_frame])
  have 4: "same_elsewhere i s (move i (max_velocity i (integration i ax ay s1)))"
    by (rule same_elsewhere_trans[OF 3 move_frame])
  have 5: "same_elsewhere i s s5"
    unfolding s5_def by (rule same_elsewhere_trans[OF 4 boundaries_frame])
  have "pass1_particle e hands rnd i s = insert_grid e i s5"
    by (simp add: pass1_particle_def h s5_def)
  moreover have "gridHead s5 = gridHead s" "nextParticle s5 = nextParticle s"
    using g1 by (simp_all add: s5_def)
  ultimately show ?thesis using 5 by blast
qed

lemma chain_update:
  "int m \<notin> set (chain nxt fuel j) \<Longrightarrow> chain (nxt[m := v]) fuel j = chain nxt fuel j"
proof (induction fuel arbitrary: j)
  case 0
  then show ?case by simp
next
  case (Suc fuel)
  show ?case
  proof (cases "j = - 1")
    case True
    then show ?thesis by simp
  next
    case False
    then have jm: "j \<noteq> int m" using Suc.prems by auto
    have r: "rdI (nxt[m := v]) j = rdI nxt j"
      using jm by (auto simp: rdI_def nat_eq_iff)
    have "int m \<notin> set (chain nxt fuel (case rdI nxt j of Some k \<Rightarrow> k | None \<Rightarrow> - 1))"
      using Suc.prems False by simp
    then show ?thesis using Suc.IH False r by simp
  qed
qed

lemma members_Suc:
  "members e s (Suc m) c =
     (if on_grid e s m \<and> cell_index e s m = c then [int m] else []) @ members e s m c"
  by (simp add: members_def)

lemma members_less: "j \<in> set (members e s m c) \<Longrightarrow> j < int m"
  by (auto simp: members_def)

lemma members_cong:
  assumes "\<forall>i<m. rd (px s') (int i) = rd (px s) (int i) \<and> rd (py s') (int i) = rd (py s) (int i)"
  shows "members e s' m c = members e s m c"
proof -
  have "filter (\<lambda>i. on_grid e s' i \<and> cell_index e s' i = c) [0..<m]
      = filter (\<lambda>i. on_grid e s i \<and> cell_index e s i = c) [0..<m]"
    using assms by (intro filter_cong) (auto simp: on_grid_def cell_index_def cell_x_def cell_y_def)
  then show ?thesis by (simp add: members_def)
qed

lemma cell_index_range:
  assumes "in_grid e cx cy"
  shows "0 \<le> cy * gridW e + cx \<and> cy * gridW e + cx < gridW e * gridH e"
proof -
  have c: "0 \<le> cx" "cx < gridW e" "0 \<le> cy" "cy < gridH e"
    using assms by (simp_all add: in_grid_def)
  have "cy * gridW e + cx < cy * gridW e + gridW e" using c(2) by simp
  also have "\<dots> = (cy + 1) * gridW e" by (simp add: algebra_simps)
  also have "\<dots> \<le> gridH e * gridW e"
    using c by (intro mult_right_mono) simp_all
  finally have "cy * gridW e + cx < gridW e * gridH e" by (simp add: mult.commute)
  moreover have "0 \<le> cy * gridW e + cx" using c by simp
  ultimately show ?thesis by simp
qed

lemma insert_grid_on:
  assumes "on_grid e s i" and "int (length (gridHead s)) = gridW e * gridH e"
    and "i < length (nextParticle s)"
  shows "nextParticle (insert_grid e i s) = (nextParticle s)[i := gridHead s ! nat (cell_index e s i)]"
    and "gridHead (insert_grid e i s) = (gridHead s)[nat (cell_index e s i) := int i]"
proof -
  have r: "0 \<le> cell_index e s i \<and> cell_index e s i < int (length (gridHead s))"
    using cell_index_range[of e "cell_x s i" "cell_y s i"] assms(1,2)
    by (simp add: on_grid_def cell_index_def)
  show "nextParticle (insert_grid e i s) = (nextParticle s)[i := gridHead s ! nat (cell_index e s i)]"
    using assms r by (simp add: insert_grid_def Let_def on_grid_def cell_index_def rdI_def wrI_def)
  show "gridHead (insert_grid e i s) = (gridHead s)[nat (cell_index e s i) := int i]"
    using assms r by (simp add: insert_grid_def Let_def on_grid_def cell_index_def rdI_def wrI_def)
qed

lemma insert_grid_off:
  "\<not> on_grid e s i \<Longrightarrow> insert_grid e i s = s"
  by (simp add: insert_grid_def Let_def on_grid_def)

lemma insert_grid_lengths [simp]:
  "length (gridHead (insert_grid e i s)) = length (gridHead s)"
  "length (nextParticle (insert_grid e i s)) = length (nextParticle s)"
  by (simp_all add: insert_grid_def Let_def wrI_def)

lemma insert_grid_step:
  assumes len: "length (nextParticle s) = n" "int (length (gridHead s)) = gridW e * gridH e"
    and m: "m < n"
    and inv: "\<forall>c fuel. 0 \<le> c \<and> c < int (length (gridHead s)) \<and> m \<le> fuel \<longrightarrow>
                chain (nextParticle s) fuel (gridHead s ! nat c) = members e s m c"
    and c: "0 \<le> c" "c < int (length (gridHead s))" and fuel: "Suc m \<le> fuel"
  shows "chain (nextParticle (insert_grid e m s)) fuel (gridHead (insert_grid e m s) ! nat c)
           = members e s (Suc m) c"
proof (cases "on_grid e s m")
  case False
  then show ?thesis
    using inv c fuel by (simp add: insert_grid_off members_Suc)
next
  case True
  define c0 where "c0 = cell_index e s m"
  define h0 where "h0 = gridHead s ! nat c0"
  have r0: "0 \<le> c0" "c0 < int (length (gridHead s))"
    using cell_index_range[of e "cell_x s m" "cell_y s m"] True len(2)
    by (simp_all add: on_grid_def cell_index_def c0_def)
  have nx: "nextParticle (insert_grid e m s) = (nextParticle s)[m := h0]"
    and hd: "gridHead (insert_grid e m s) = (gridHead s)[nat c0 := int m]"
    using insert_grid_on[OF True len(2)] m len(1) by (simp_all add: c0_def h0_def)
  have old: "chain ((nextParticle s)[m := h0]) f (gridHead s ! nat c') = members e s m c'"
    if "0 \<le> c'" "c' < int (length (gridHead s))" "m \<le> f" for c' f
  proof -
    have i: "chain (nextParticle s) f (gridHead s ! nat c') = members e s m c'"
      using inv that by blast
    have "int m \<notin> set (chain (nextParticle s) f (gridHead s ! nat c'))"
      unfolding i using members_less[of "int m" e s m c'] by auto
    then show ?thesis using chain_update i by simp
  qed
  show ?thesis
  proof (cases "c = c0")
    case False
    then have "nat c \<noteq> nat c0" using c r0 by simp
    then have "gridHead (insert_grid e m s) ! nat c = gridHead s ! nat c"
      by (simp add: hd)
    moreover have "members e s (Suc m) c = members e s m c"
      using False by (simp add: members_Suc c0_def)
    ultimately show ?thesis
      using old[OF c, of fuel] fuel by (simp add: nx)
  next
    case same: True
    obtain f where f: "fuel = Suc f" "m \<le> f" using fuel by (cases fuel) simp_all
    have "gridHead (insert_grid e m s) ! nat c = int m"
      using r0 same by (simp add: hd)
    moreover have "rdI ((nextParticle s)[m := h0]) (int m) = Some h0"
      using m len(1) by (simp add: rdI_def)
    moreover have "members e s (Suc m) c = int m # members e s m c0"
      using True same by (simp add: members_Suc c0_def)
    ultimately show ?thesis
      using old[OF r0 f(2)] by (simp add: nx f(1) h0_def)
  qed
qed

lemma chain_sentinel [simp]: "chain nxt fuel (- 1) = []"
  by (cases fuel) simp_all

lemma grid_fold_invariant:
  assumes len: "length (nextParticle s) = n" "int (length (gridHead s)) = gridW e * gridH e"
    and empty: "\<forall>c. 0 \<le> c \<and> c < int (length (gridHead s)) \<longrightarrow> gridHead s ! nat c = - 1"
    and m: "m \<le> n"
  shows "length (nextParticle (fold (pass1_particle e hands rnd) [0..<m] s)) = n
       \<and> length (gridHead (fold (pass1_particle e hands rnd) [0..<m] s)) = length (gridHead s)
       \<and> (\<forall>c fuel. 0 \<le> c \<and> c < int (length (gridHead s)) \<and> m \<le> fuel \<longrightarrow>
             chain (nextParticle (fold (pass1_particle e hands rnd) [0..<m] s)) fuel
               (gridHead (fold (pass1_particle e hands rnd) [0..<m] s) ! nat c)
             = members e (fold (pass1_particle e hands rnd) [0..<m] s) m c)"
  using m
proof (induction m)
  case 0
  then show ?case using len empty by (simp add: members_def)
next
  case (Suc m)
  define sm where "sm = fold (pass1_particle e hands rnd) [0..<m] s"
  have step: "fold (pass1_particle e hands rnd) [0..<Suc m] s = pass1_particle e hands rnd m sm"
    by (simp add: sm_def)
  have ih: "length (nextParticle sm) = n" "length (gridHead sm) = length (gridHead s)"
    "\<forall>c fuel. 0 \<le> c \<and> c < int (length (gridHead s)) \<and> m \<le> fuel \<longrightarrow>
        chain (nextParticle sm) fuel (gridHead sm ! nat c) = members e sm m c"
    using Suc.IH Suc.prems unfolding sm_def by simp_all
  obtain s5 where s5: "pass1_particle e hands rnd m sm = insert_grid e m s5"
    "gridHead s5 = gridHead sm" "nextParticle s5 = nextParticle sm" "same_elsewhere m sm s5"
    using pass1_particle_insert by blast
  have agree: "\<forall>i<m. rd (px s5) (int i) = rd (px sm) (int i) \<and> rd (py s5) (int i) = rd (py sm) (int i)"
    using s5(4) by (simp add: same_elsewhere_def)
  have len5: "length (nextParticle s5) = n" "int (length (gridHead s5)) = gridW e * gridH e"
    using ih(1,2) len(2) s5(2,3) by simp_all
  have inv5: "\<forall>c fuel. 0 \<le> c \<and> c < int (length (gridHead s5)) \<and> m \<le> fuel \<longrightarrow>
        chain (nextParticle s5) fuel (gridHead s5 ! nat c) = members e s5 m c"
    using ih(2,3) s5(2,3) members_cong[OF agree, of e] by simp
  have same: "members e (insert_grid e m s5) k c = members e s5 k c" for k c
    by (rule members_cong) simp
  have mn: "m < n" using Suc.prems by simp
  show ?case
    unfolding step s5(1)
  proof (intro conjI allI impI)
    show "length (nextParticle (insert_grid e m s5)) = n" using len5(1) by simp
    show "length (gridHead (insert_grid e m s5)) = length (gridHead s)"
      using s5(2) ih(2) by simp
  next
    fix c fuel assume a: "0 \<le> c \<and> c < int (length (gridHead s)) \<and> Suc m \<le> fuel"
    then have c: "0 \<le> c" "c < int (length (gridHead s5))" and f: "Suc m \<le> fuel"
      using s5(2) ih(2) by simp_all
    show "chain (nextParticle (insert_grid e m s5)) fuel (gridHead (insert_grid e m s5) ! nat c)
            = members e (insert_grid e m s5) (Suc m) c"
      unfolding same by (rule insert_grid_step[OF len5 mn inv5 c f])
  qed
qed

lemma grid_reset_empty:
  "\<forall>c. 0 \<le> c \<and> c < int (length (gridHead (grid_reset s))) \<longrightarrow> gridHead (grid_reset s) ! nat c = - 1"
proof (intro allI impI)
  fix c assume "0 \<le> c \<and> c < int (length (gridHead (grid_reset s)))"
  then have "nat c < length (gridHead s)" by (auto simp add: grid_reset_def nat_less_iff)
  then show "gridHead (grid_reset s) ! nat c = - 1" by (simp add: grid_reset_def)
qed

lemma cell_list_after_pass1:
  assumes "well_sized e s"
  shows "cell_list e (pass1 e hands rnd (grid_reset s)) c
           = (if 0 \<le> c \<and> c < gridW e * gridH e
              then members e (pass1 e hands rnd (grid_reset s)) (particleCount e) c else [])"
proof -
  have len: "length (nextParticle (grid_reset s)) = particleCount e"
    "int (length (gridHead (grid_reset s))) = gridW e * gridH e"
    using assms by (simp_all add: well_sized_def grid_reset_def)
  note inv = grid_fold_invariant[OF len grid_reset_empty order_refl, of hands rnd, folded pass1_def]
  have l: "int (length (gridHead (pass1 e hands rnd (grid_reset s)))) = gridW e * gridH e"
    using inv len(2) by simp
  show ?thesis
  proof (cases "0 \<le> c \<and> c < gridW e * gridH e")
    case True
    then have "chain (nextParticle (pass1 e hands rnd (grid_reset s))) (particleCount e)
               (gridHead (pass1 e hands rnd (grid_reset s)) ! nat c)
             = members e (pass1 e hands rnd (grid_reset s)) (particleCount e) c"
      using inv len(2) by simp
    then show ?thesis using True l by (simp add: cell_list_def rdI_def)
  next
    case False
    then show ?thesis using l by (auto simp add: cell_list_def rdI_def)
  qed
qed

lemma members_set:
  "set (members e s n c) = {int i |i. i < n \<and> on_grid e s i \<and> cell_index e s i = c}"
  by (auto simp: members_def)

lemma members_distinct: "distinct (members e s n c)"
  by (simp add: members_def distinct_map)

text \<open>
  The lists of the grid after Pass 1 of a tick that starts from arrays of the allocated
  sizes: a particle whose computed cell is a cell of the grid is in the list of that
  cell, once, and in no other list; a particle whose computed cell is outside the grid
  is in no list. The lists are complete: following \<open>nextParticle\<close> for more than
  \<open>particleCount\<close> steps finds nothing more.
\<close>

theorem grid_lists:
  assumes "well_sized e s" and "i < particleCount e"
  shows "(on_grid e (pass1 e hands rnd (grid_reset s)) i \<longrightarrow>
            (\<forall>c. int i \<in> set (cell_list e (pass1 e hands rnd (grid_reset s)) c)
                  \<longleftrightarrow> c = cell_index e (pass1 e hands rnd (grid_reset s)) i)
          \<and> distinct (cell_list e (pass1 e hands rnd (grid_reset s))
                         (cell_index e (pass1 e hands rnd (grid_reset s)) i)))
       \<and> (\<not> on_grid e (pass1 e hands rnd (grid_reset s)) i \<longrightarrow>
            (\<forall>c. int i \<notin> set (cell_list e (pass1 e hands rnd (grid_reset s)) c)))
       \<and> (\<forall>c fuel. particleCount e \<le> fuel \<longrightarrow>
            (case rdI (gridHead (pass1 e hands rnd (grid_reset s))) c of
               Some h \<Rightarrow> chain (nextParticle (pass1 e hands rnd (grid_reset s))) fuel h
             | None \<Rightarrow> [])
            = cell_list e (pass1 e hands rnd (grid_reset s)) c)"
proof -
  define s1 where "s1 = pass1 e hands rnd (grid_reset s)"
  have cl: "cell_list e s1 c
      = (if 0 \<le> c \<and> c < gridW e * gridH e then members e s1 (particleCount e) c else [])" for c
    unfolding s1_def by (rule cell_list_after_pass1[OF assms(1)])
  have on: "on_grid e s1 i \<Longrightarrow> 0 \<le> cell_index e s1 i \<and> cell_index e s1 i < gridW e * gridH e"
    using cell_index_range[of e "cell_x s1 i" "cell_y s1 i"] by (simp add: on_grid_def cell_index_def)
  have a: "on_grid e s1 i \<longrightarrow>
            (\<forall>c. int i \<in> set (cell_list e s1 c) \<longleftrightarrow> c = cell_index e s1 i)
          \<and> distinct (cell_list e s1 (cell_index e s1 i))"
    using on assms(2) by (auto simp: cl members_set members_distinct)
  have b: "\<not> on_grid e s1 i \<longrightarrow> (\<forall>c. int i \<notin> set (cell_list e s1 c))"
    by (auto simp: cl members_set)
  have len: "length (nextParticle (grid_reset s)) = particleCount e"
    "int (length (gridHead (grid_reset s))) = gridW e * gridH e"
    using assms(1) by (simp_all add: well_sized_def grid_reset_def)
  note inv = grid_fold_invariant[OF len grid_reset_empty order_refl, of hands rnd,
      folded pass1_def, folded s1_def]
  have c: "(case rdI (gridHead s1) c of Some h \<Rightarrow> chain (nextParticle s1) fuel h | None \<Rightarrow> [])
            = cell_list e s1 c" if "particleCount e \<le> fuel" for c fuel
  proof (cases "0 \<le> c \<and> c < int (length (gridHead s1))")
    case True
    then have "chain (nextParticle s1) fuel (gridHead s1 ! nat c) = members e s1 (particleCount e) c"
      "chain (nextParticle s1) (particleCount e) (gridHead s1 ! nat c) = members e s1 (particleCount e) c"
      using inv that by simp_all
    then show ?thesis using True by (simp add: cell_list_def rdI_def)
  next
    case False
    then show ?thesis by (auto simp: cell_list_def rdI_def)
  qed
  show ?thesis
    using a b c unfolding s1_def by blast
qed

theorem grid_lists_witness:
  "well_sized e_two s_wall \<and> 0 < particleCount e_two
   \<and> on_grid e_two (pass1 e_two [] (\<lambda>_. 1 / 2) (grid_reset s_wall)) 0
   \<and> cell_index e_two (pass1 e_two [] (\<lambda>_. 1 / 2) (grid_reset s_wall)) 0 = 10
   \<and> cell_list e_two (pass1 e_two [] (\<lambda>_. 1 / 2) (grid_reset s_wall)) 10 = [1, 0]
   \<and> int 0 \<in> set (cell_list e_two (pass1 e_two [] (\<lambda>_. 1 / 2) (grid_reset s_wall)) 10)
   \<and> int 0 \<notin> set (cell_list e_two (pass1 e_two [] (\<lambda>_. 1 / 2) (grid_reset s_wall)) 11)"
proof -
  have h: "well_sized e_two s_wall" "0 < particleCount e_two"
    by (simp_all add: well_sized_def e_two_def s_wall_def empty_grid_def)
  have on: "on_grid e_two (pass1 e_two [] (\<lambda>_. 1 / 2) (grid_reset s_wall)) 0"
    "cell_index e_two (pass1 e_two [] (\<lambda>_. 1 / 2) (grid_reset s_wall)) 0 = 10"
    unfolding s_wall_pass1
    by (simp_all add: on_grid_def cell_index_def e_two_grid cell_x_def cell_y_def rd_def CELL_SIZE_def
        trunc_def wrap32_def)
  have "chain [- 1, 0] 2 1 = [1, 0]"
    by (simp add: numeral_2_eq_2 rdI_def)
  then have l: "cell_list e_two (pass1 e_two [] (\<lambda>_. 1 / 2) (grid_reset s_wall)) 10 = [1, 0]"
    unfolding s_wall_pass1 by (simp add: cell_list_def rdI_def e_two_def)
  show ?thesis
    using h on l grid_lists[OF h, of "[]" "\<lambda>_. 1 / 2"] by simp
qed

lemma s_mid_pass1:
  "pass1 e_grown [] rnd (grid_reset s_mid)
     = \<lparr>px = [Fin 40], py = [Fin (656029 / 16384)], pvx = [Fin 0], pvy = [Fin (2055209 / 4194304)],
         pradius = [Fin 2], gridHead = [- 1, - 1, - 1, - 1], nextParticle = [- 1]\<rparr>"
  apply (simp add: pass1_def pass1_particle_def hands_loop_def e_grown_def)
  apply (simp add: s_mid_def grid_reset_def respawn_safety_def rd_def)
  apply (simp add: integration_def rd_def wr_def GRAVITY_def FRICTION_AIR_def dt_def f32_eval)
  apply (simp add: max_velocity_def max_velocity_x_def max_velocity_y_def MAX_VEL_def rd_def wr_def f32_eval)
  apply (simp add: move_def rd_def wr_def dt_def f32_eval)
  apply (simp add: boundaries_def boundaries_x_def boundaries_y_def rd_def wr_def BOUNCE_WALL_def
      BOUNCE_GROUND_def f32_eval)
  apply (simp add: insert_grid_def rd_def wrI_def rdI_def Let_def cell_x_def cell_y_def in_grid_def
      CELL_SIZE_def trunc_def wrap32_def)
  done

lemma s_mid_sized_pass1:
  "pass1 e_small [] rnd (grid_reset s_mid_sized)
     = \<lparr>px = [Fin 40], py = [Fin (656029 / 16384)], pvx = [Fin 0], pvy = [Fin (2055209 / 4194304)],
         pradius = [Fin 2], gridHead = (replicate 25 (- 1))[18 := 0], nextParticle = [- 1]\<rparr>"
  apply (simp add: pass1_def pass1_particle_def hands_loop_def e_small_def)
  apply (simp add: s_mid_sized_def grid_reset_def empty_grid_def respawn_safety_def rd_def)
  apply (simp add: integration_def rd_def wr_def GRAVITY_def FRICTION_AIR_def dt_def f32_eval)
  apply (simp add: max_velocity_def max_velocity_x_def max_velocity_y_def MAX_VEL_def rd_def wr_def f32_eval)
  apply (simp add: move_def rd_def wr_def dt_def f32_eval)
  apply (simp add: boundaries_def boundaries_x_def boundaries_y_def rd_def wr_def BOUNCE_WALL_def
      BOUNCE_GROUND_def f32_eval)
  apply (simp add: insert_grid_def rd_def wrI_def rdI_def Let_def cell_x_def cell_y_def in_grid_def
      CELL_SIZE_def trunc_def wrap32_def)
  done

text \<open>
  C7 (the code departs from the claim). The grid dimensions are computed once, from the
  screen at set-up; the tick reads the screen dimensions anew and the boundary block
  keeps particles inside the current screen. After the screen has grown from 24 by 24
  to 60 by 60 pixels over the 2 by 2 grid, a particle at rest at \<open>(40, 40)\<close> has a finite
  position inside the bounds after Pass 1, its computed cell \<open>(3, 3)\<close> is outside the
  grid, and it is in none of the four lists. With the 5 by 5 grid of the current screen
  the same particle is in the list of cell 18.
\<close>

theorem grid_misses_particle_after_resize:
  "well_sized e_grown s_mid \<and> finite_particle s_mid (int 0) \<and> room_for e_grown s_mid 0
   \<and> pass1 e_grown [] (\<lambda>_. 1 / 2) (grid_reset s_mid)
       = \<lparr>px = [Fin 40], py = [Fin (656029 / 16384)], pvx = [Fin 0], pvy = [Fin (2055209 / 4194304)],
           pradius = [Fin 2], gridHead = [- 1, - 1, - 1, - 1], nextParticle = [- 1]\<rparr>
   \<and> isFinite (rd (px (pass1 e_grown [] (\<lambda>_. 1 / 2) (grid_reset s_mid))) (int 0))
   \<and> isFinite (rd (py (pass1 e_grown [] (\<lambda>_. 1 / 2) (grid_reset s_mid))) (int 0))
   \<and> in_bounds e_grown (pass1 e_grown [] (\<lambda>_. 1 / 2) (grid_reset s_mid)) 0
   \<and> cell_x (pass1 e_grown [] (\<lambda>_. 1 / 2) (grid_reset s_mid)) 0 = 3
   \<and> cell_y (pass1 e_grown [] (\<lambda>_. 1 / 2) (grid_reset s_mid)) 0 = 3
   \<and> \<not> on_grid e_grown (pass1 e_grown [] (\<lambda>_. 1 / 2) (grid_reset s_mid)) 0
   \<and> cell_list e_grown (pass1 e_grown [] (\<lambda>_. 1 / 2) (grid_reset s_mid)) 0 = []
   \<and> cell_list e_grown (pass1 e_grown [] (\<lambda>_. 1 / 2) (grid_reset s_mid)) 1 = []
   \<and> cell_list e_grown (pass1 e_grown [] (\<lambda>_. 1 / 2) (grid_reset s_mid)) 2 = []
   \<and> cell_list e_grown (pass1 e_grown [] (\<lambda>_. 1 / 2) (grid_reset s_mid)) 3 = []
   \<and> screenW e_small = screenW e_grown \<and> screenH e_small = screenH e_grown
   \<and> well_sized e_small s_mid_sized
   \<and> cell_index e_small (pass1 e_small [] (\<lambda>_. 1 / 2) (grid_reset s_mid_sized)) 0 = 18
   \<and> cell_list e_small (pass1 e_small [] (\<lambda>_. 1 / 2) (grid_reset s_mid_sized)) 18 = [0]"
proof -
  have a: "well_sized e_grown s_mid" "finite_particle s_mid (int 0)" "room_for e_grown s_mid 0"
    by (simp_all add: well_sized_def e_grown_def s_mid_def finite_particle_def room_for_def rd_def)
  have b: "isFinite (rd (px (pass1 e_grown [] (\<lambda>_. 1 / 2) (grid_reset s_mid))) (int 0))"
    "isFinite (rd (py (pass1 e_grown [] (\<lambda>_. 1 / 2) (grid_reset s_mid))) (int 0))"
    "in_bounds e_grown (pass1 e_grown [] (\<lambda>_. 1 / 2) (grid_reset s_mid)) 0"
    unfolding s_mid_pass1 by (simp_all add: in_bounds_def e_grown_def rd_def)
  have c: "cell_x (pass1 e_grown [] (\<lambda>_. 1 / 2) (grid_reset s_mid)) 0 = 3"
    "cell_y (pass1 e_grown [] (\<lambda>_. 1 / 2) (grid_reset s_mid)) 0 = 3"
    unfolding s_mid_pass1
    by (simp_all add: cell_x_def cell_y_def rd_def CELL_SIZE_def trunc_def wrap32_def)
  have d: "\<not> on_grid e_grown (pass1 e_grown [] (\<lambda>_. 1 / 2) (grid_reset s_mid)) 0"
    unfolding on_grid_def c by (simp add: in_grid_def e_grown_def)
  have l: "cell_list e_grown (pass1 e_grown [] (\<lambda>_. 1 / 2) (grid_reset s_mid)) 0 = []"
    "cell_list e_grown (pass1 e_grown [] (\<lambda>_. 1 / 2) (grid_reset s_mid)) 1 = []"
    "cell_list e_grown (pass1 e_grown [] (\<lambda>_. 1 / 2) (grid_reset s_mid)) 2 = []"
    "cell_list e_grown (pass1 e_grown [] (\<lambda>_. 1 / 2) (grid_reset s_mid)) 3 = []"
    unfolding s_mid_pass1 by (simp_all add: cell_list_def rdI_def e_grown_def)
  have f: "screenW e_small = screenW e_grown" "screenH e_small = screenH e_grown"
    "well_sized e_small s_mid_sized"
    by (simp_all add: e_small_def e_grown_def well_sized_def s_mid_sized_def empty_grid_def)
  have g: "cell_index e_small (pass1 e_small [] (\<lambda>_. 1 / 2) (grid_reset s_mid_sized)) 0 = 18"
    unfolding s_mid_sized_pass1
    by (simp add: cell_index_def cell_x_def cell_y_def rd_def CELL_SIZE_def trunc_def wrap32_def
        e_small_def)
  have k: "cell_list e_small (pass1 e_small [] (\<lambda>_. 1 / 2) (grid_reset s_mid_sized)) 18 = [0]"
    unfolding s_mid_sized_pass1 by (simp add: cell_list_def rdI_def e_small_def)
  show ?thesis
    using a b c d l f g k s_mid_pass1[of "\<lambda>_. 1 / 2"] by simp
qed

subsection \<open>The random source\<close>

lemma finite_positions_iff:
  "finite_positions n s \<longleftrightarrow> (\<forall>i<n. isFinite (rd (px s) (int i)) \<and> isFinite (rd (py s) (int i)))"
  by (auto simp: finite_positions_def list_all_iff)

lemma pass1_particle_no_random:
  assumes "isFinite (rd (px s) (int i))" and "isFinite (rd (py s) (int i))"
  shows "pass1_particle e hands rnd i s = pass1_particle e hands rnd' i s"
  using assms by (simp add: pass1_particle_def respawn_safety_finite)

lemma pass1_fold_no_random:
  assumes "\<forall>i<n. isFinite (rd (px s) (int i)) \<and> isFinite (rd (py s) (int i))" and "m \<le> n"
  shows "fold (pass1_particle e hands rnd) [0..<m] s = fold (pass1_particle e hands rnd') [0..<m] s
       \<and> (\<forall>i. m \<le> i \<and> i < n \<longrightarrow>
             isFinite (rd (px (fold (pass1_particle e hands rnd) [0..<m] s)) (int i))
           \<and> isFinite (rd (py (fold (pass1_particle e hands rnd) [0..<m] s)) (int i)))"
  using assms(2)
proof (induction m)
  case 0
  then show ?case using assms(1) by simp
next
  case (Suc m)
  define sm where "sm = fold (pass1_particle e hands rnd) [0..<m] s"
  have mn: "m \<le> n" using Suc.prems by simp
  have ih1: "fold (pass1_particle e hands rnd') [0..<m] s = sm"
    unfolding sm_def by (rule sym) (rule conjunct1[OF Suc.IH[OF mn]])
  have ih2: "\<forall>i. m \<le> i \<and> i < n \<longrightarrow> isFinite (rd (px sm) (int i)) \<and> isFinite (rd (py sm) (int i))"
    unfolding sm_def by (rule conjunct2[OF Suc.IH[OF mn]])
  note ih = ih1 ih2
  have here: "isFinite (rd (px sm) (int m))" "isFinite (rd (py sm) (int m))"
    using ih(2) Suc.prems by simp_all
  have fr: "same_elsewhere m sm (pass1_particle e hands rnd m sm)"
    by (rule pass1_particle_frame)
  have "fold (pass1_particle e hands rnd) [0..<Suc m] s = pass1_particle e hands rnd m sm"
    by (simp add: sm_def)
  moreover have "fold (pass1_particle e hands rnd') [0..<Suc m] s = pass1_particle e hands rnd m sm"
    using ih(1) pass1_particle_no_random[OF here, of e hands rnd rnd'] by simp
  moreover have "\<forall>i. Suc m \<le> i \<and> i < n \<longrightarrow>
      isFinite (rd (px (pass1_particle e hands rnd m sm)) (int i))
      \<and> isFinite (rd (py (pass1_particle e hands rnd m sm)) (int i))"
    using ih(2) fr by (simp add: same_elsewhere_def)
  ultimately show ?case by simp
qed

lemma pass1_radius: "pradius (pass1 e hands rnd s) = pradius s"
proof -
  have "pradius (fold (pass1_particle e hands rnd) is s) = pradius s" for "is"
  proof (induction "is" arbitrary: s)
    case Nil
    then show ?case by simp
  next
    case (Cons i "is")
    show ?case
      using Cons.IH[of "pass1_particle e hands rnd i s"]
        same_elsewhere_radius[OF pass1_particle_frame[of i s e hands rnd]] by simp
  qed
  then show ?thesis by (simp add: pass1_def)
qed

lemma tick_radius: "pradius (tick e hands rnd s) = pradius s"
  by (simp add: tick_def pass2_radius pass1_radius)

lemma tick_no_random:
  assumes "finite_positions (particleCount e) s"
  shows "tick e hands rnd s = tick e hands rnd' s"
proof -
  have "\<forall>i<particleCount e. isFinite (rd (px (grid_reset s)) (int i)) \<and> isFinite (rd (py (grid_reset s)) (int i))"
    using assms by (simp add: finite_positions_iff grid_reset_def)
  then have "pass1 e hands rnd (grid_reset s) = pass1 e hands rnd' (grid_reset s)"
    using pass1_fold_no_random[OF _ order_refl, of "particleCount e" "grid_reset s" e hands rnd rnd']
    by (simp add: pass1_def)
  then show ?thesis by (simp add: tick_def)
qed

subsection \<open>Stale links are never read\<close>

lemma stage_next:
  "respawn_safety e rnd i (s\<lparr>nextParticle := n\<rparr>) = (respawn_safety e rnd i s)\<lparr>nextParticle := n\<rparr>"
  "integration i ax ay (s\<lparr>nextParticle := n\<rparr>) = (integration i ax ay s)\<lparr>nextParticle := n\<rparr>"
  "max_velocity i (s\<lparr>nextParticle := n\<rparr>) = (max_velocity i s)\<lparr>nextParticle := n\<rparr>"
  "move i (s\<lparr>nextParticle := n\<rparr>) = (move i s)\<lparr>nextParticle := n\<rparr>"
  "boundaries e i (s\<lparr>nextParticle := n\<rparr>) = (boundaries e i s)\<lparr>nextParticle := n\<rparr>"
  by (simp_all add: respawn_safety_def integration_def max_velocity_def max_velocity_x_def
      max_velocity_y_def move_def boundaries_def boundaries_x_def boundaries_y_def Let_def)

lemma hand_interaction_next:
  "hand_interaction e i h (s\<lparr>nextParticle := n\<rparr>, ax, ay)
     = (case hand_interaction e i h (s, ax, ay) of (s1, a, b) \<Rightarrow> (s1\<lparr>nextParticle := n\<rparr>, a, b))"
  by (simp add: hand_interaction_def Let_def)

lemma hands_fold_next:
  "fold (hand_interaction e i) hands (s\<lparr>nextParticle := n\<rparr>, ax, ay)
     = (case fold (hand_interaction e i) hands (s, ax, ay) of (s1, a, b) \<Rightarrow> (s1\<lparr>nextParticle := n\<rparr>, a, b))"
proof (induction hands arbitrary: s ax ay)
  case Nil
  then show ?case by simp
next
  case (Cons h hands)
  obtain s1 a b where st: "hand_interaction e i h (s, ax, ay) = (s1, a, b)"
    by (cases "hand_interaction e i h (s, ax, ay)")
  show ?case using Cons.IH[of s1 a b] by (simp add: hand_interaction_next st)
qed

lemma insert_grid_next:
  "\<exists>n'. insert_grid e i (s\<lparr>nextParticle := n\<rparr>) = (insert_grid e i s)\<lparr>nextParticle := n'\<rparr>"
proof (cases "in_grid e (cell_x s i) (cell_y s i)")
  case True
  then show ?thesis
    by (intro exI[of _ "nextParticle (insert_grid e i (s\<lparr>nextParticle := n\<rparr>))"])
      (simp add: insert_grid_def Let_def cell_x_def cell_y_def)
next
  case False
  then show ?thesis
    by (intro exI[of _ n]) (simp add: insert_grid_def Let_def cell_x_def cell_y_def)
qed

lemma pass1_particle_next:
  "\<exists>n'. pass1_particle e hands rnd i (s\<lparr>nextParticle := n\<rparr>)
          = (pass1_particle e hands rnd i s)\<lparr>nextParticle := n'\<rparr>"
proof -
  obtain s1 ax ay where h: "hands_loop e i hands (respawn_safety e rnd i s) = (s1, ax, ay)"
    by (cases "hands_loop e i hands (respawn_safety e rnd i s)")
  have h': "hands_loop e i hands ((respawn_safety e rnd i s)\<lparr>nextParticle := n\<rparr>)
      = (s1\<lparr>nextParticle := n\<rparr>, ax, ay)"
    using h by (simp add: hands_loop_def hands_fold_next)
  show ?thesis
    using insert_grid_next[where e = e and i = i and n = n
        and s = "boundaries e i (move i (max_velocity i (integration i ax ay s1)))"]
    by (simp add: pass1_particle_def h h' stage_next)
qed

lemma pass1_next:
  "\<exists>n'. pass1 e hands rnd (s\<lparr>nextParticle := n\<rparr>) = (pass1 e hands rnd s)\<lparr>nextParticle := n'\<rparr>"
proof -
  have "\<exists>n'. fold (pass1_particle e hands rnd) is (s\<lparr>nextParticle := n\<rparr>)
          = (fold (pass1_particle e hands rnd) is s)\<lparr>nextParticle := n'\<rparr>" for "is"
  proof (induction "is" arbitrary: s n)
    case Nil
    then show ?case by auto
  next
    case (Cons i "is")
    obtain n1 where "pass1_particle e hands rnd i (s\<lparr>nextParticle := n\<rparr>)
          = (pass1_particle e hands rnd i s)\<lparr>nextParticle := n1\<rparr>"
      using pass1_particle_next by blast
    then show ?case using Cons.IH[where s = "pass1_particle e hands rnd i s" and n = n1] by simp
  qed
  then show ?thesis by (simp add: pass1_def)
qed

lemma resolve_pair_next:
  "resolve_pair i j (s\<lparr>nextParticle := n\<rparr>) = (resolve_pair i j s)\<lparr>nextParticle := n\<rparr>"
  by (simp add: resolve_pair_def positional_correction_def velocity_response_def Let_def)

lemma walk_list_next:
  "walk_list i js k (s\<lparr>nextParticle := n\<rparr>)
     = (case walk_list i js k s of (s1, k1) \<Rightarrow> (s1\<lparr>nextParticle := n\<rparr>, k1))"
  by (induction js arbitrary: k s) (simp_all add: resolve_pair_next)

lemma walk_chain:
  assumes "\<forall>f\<ge>fuel. chain (nextParticle s) f j = chain (nextParticle s) fuel j"
    and "\<forall>x\<in>set (chain (nextParticle s) fuel j). 0 \<le> x \<and> x < int (length (nextParticle s))"
  shows "walk i (Some j) k s = walk_list i (chain (nextParticle s) fuel j) k s"
  using assms
proof (induction fuel arbitrary: j k s)
  case 0
  have "chain (nextParticle s) (Suc 0) j = chain (nextParticle s) 0 j"
    using "0.prems"(1) by blast
  then have "j = - 1" by (simp split: if_splits)
  then show ?case by (simp add: walk_end)
next
  case (Suc fuel)
  show ?case
  proof (cases "j = - 1")
    case True
    then show ?thesis by (simp add: walk_end)
  next
    case False
    define j' where "j' = nextParticle s ! nat j"
    have rng: "0 \<le> j" "j < int (length (nextParticle s))"
      using Suc.prems(2) False by simp_all
    then have rj: "rdI (nextParticle s) j = Some j'" by (simp add: rdI_def j'_def)
    have ch: "chain (nextParticle s) (Suc f) j = j # chain (nextParticle s) f j'" for f
      using False rj by simp
    define s1 where "s1 = (if j \<noteq> int i then resolve_pair i (Some j) s else s)"
    have n1: "nextParticle s1 = nextParticle s" by (simp add: s1_def)
    have comp: "\<forall>f\<ge>fuel. chain (nextParticle s1) f j' = chain (nextParticle s1) fuel j'"
    proof (intro allI impI)
      fix f assume "fuel \<le> f"
      then have "Suc fuel \<le> Suc f" by simp
      then have "chain (nextParticle s) (Suc f) j = chain (nextParticle s) (Suc fuel) j"
        using Suc.prems(1) by blast
      then show "chain (nextParticle s1) f j' = chain (nextParticle s1) fuel j'"
        unfolding ch n1 by simp
    qed
    have rng': "\<forall>x\<in>set (chain (nextParticle s1) fuel j'). 0 \<le> x \<and> x < int (length (nextParticle s1))"
      using Suc.prems(2) unfolding ch n1 by simp
    show ?thesis
    proof (cases "k < 50")
      case True
      have "walk i (Some j) k s = walk i (Some j') (Suc k) s1"
        using True False rj n1 by (subst walk.simps) (auto simp add: s1_def Let_def)
      also have "\<dots> = walk_list i (chain (nextParticle s1) fuel j') (Suc k) s1"
        by (rule Suc.IH[OF comp rng'])
      finally show ?thesis using True by (simp add: ch[of fuel] n1 s1_def del: chain.simps)
    next
      case False
      then have "walk i (Some j) k s = (s, k)" by (subst walk.simps) simp
      then show ?thesis using False by (simp add: ch[of fuel] del: chain.simps)
    qed
  qed
qed


lemma scan_cell_grid:
  "gridHead (fst (scan_cell e i a b s)) = gridHead s
   \<and> nextParticle (fst (scan_cell e i a b s)) = nextParticle s"
  by (rule scan_cell_preserves[of "\<lambda>t. gridHead t = gridHead s \<and> nextParticle t = nextParticle s"])
    simp_all

lemma links_agreeD:
  assumes "links_agree e gh ns nt"
  shows "length nt = length ns" and "int (length gh) = gridW e * gridH e"
    and "0 \<le> c \<Longrightarrow> c < int (length gh) \<Longrightarrow> particleCount e \<le> f \<Longrightarrow>
           chain ns f (gh ! nat c) = chain ns (particleCount e) (gh ! nat c)"
    and "0 \<le> c \<Longrightarrow> c < int (length gh) \<Longrightarrow> particleCount e \<le> f \<Longrightarrow>
           chain nt f (gh ! nat c) = chain ns (particleCount e) (gh ! nat c)"
    and "0 \<le> c \<Longrightarrow> c < int (length gh) \<Longrightarrow> x \<in> set (chain ns (particleCount e) (gh ! nat c)) \<Longrightarrow>
           0 \<le> x \<and> x < int (length ns)"
  using assms unfolding links_agree_def by blast+

lemma scan_cell_next:
  assumes la: "links_agree e (gridHead s) (nextParticle s) nt"
  shows "scan_cell e i ncx ncy (s\<lparr>nextParticle := nt\<rparr>)
           = (case scan_cell e i ncx ncy s of (s1, k) \<Rightarrow> (s1\<lparr>nextParticle := nt\<rparr>, k))"
proof (cases "in_grid e ncx ncy")
  case False
  then show ?thesis by (simp add: scan_cell_def)
next
  case True
  define c where "c = ncy * gridW e + ncx"
  define h where "h = gridHead s ! nat c"
  define n where "n = particleCount e"
  note d = links_agreeD[OF la]
  have r: "0 \<le> c" "c < int (length (gridHead s))"
    using cell_index_range[OF True] d(2) by (simp_all add: c_def)
  then have hd: "rdI (gridHead s) c = Some h" by (simp add: rdI_def h_def)
  have ns: "chain (nextParticle s) f h = chain (nextParticle s) n h" if "n \<le> f" for f
    using d(3)[OF r] that unfolding h_def n_def by blast
  have nt: "chain nt f h = chain (nextParticle s) n h" if "n \<le> f" for f
    using d(4)[OF r] that unfolding h_def n_def by blast
  have rg: "\<forall>x\<in>set (chain (nextParticle s) n h). 0 \<le> x \<and> x < int (length (nextParticle s))"
    using d(5)[OF r] unfolding h_def n_def by blast
  have 1: "walk i (Some h) 0 s = walk_list i (chain (nextParticle s) n h) 0 s"
    by (rule walk_chain) (use ns rg in blast)+
  have nt_n: "chain nt n h = chain (nextParticle s) n h" using nt by blast
  have c2: "\<forall>f\<ge>n. chain (nextParticle (s\<lparr>nextParticle := nt\<rparr>)) f h
                   = chain (nextParticle (s\<lparr>nextParticle := nt\<rparr>)) n h"
    using nt by simp
  have r2: "\<forall>x\<in>set (chain (nextParticle (s\<lparr>nextParticle := nt\<rparr>)) n h).
              0 \<le> x \<and> x < int (length (nextParticle (s\<lparr>nextParticle := nt\<rparr>)))"
    using rg d(1) by (simp add: nt_n)
  have "walk i (Some h) 0 (s\<lparr>nextParticle := nt\<rparr>)
      = walk_list i (chain (nextParticle (s\<lparr>nextParticle := nt\<rparr>)) n h) 0 (s\<lparr>nextParticle := nt\<rparr>)"
    by (rule walk_chain[OF c2 r2])
  then have 2: "walk i (Some h) 0 (s\<lparr>nextParticle := nt\<rparr>)
      = (case walk_list i (chain (nextParticle s) n h) 0 s of (s1, k) \<Rightarrow> (s1\<lparr>nextParticle := nt\<rparr>, k))"
    by (simp add: nt_n walk_list_next)
  show ?thesis
    using True hd by (simp add: scan_cell_def c_def[symmetric] 1 2)
qed

lemma row_next:
  assumes "links_agree e (gridHead s) (nextParticle s) nt"
  shows "fold (\<lambda>dx (s1, n). case scan_cell e i (cx + dx) cy s1 of (s2, k) \<Rightarrow> (s2, n + k)) ds
           (s\<lparr>nextParticle := nt\<rparr>, m)
         = (case fold (\<lambda>dx (s1, n). case scan_cell e i (cx + dx) cy s1 of (s2, k) \<Rightarrow> (s2, n + k)) ds
                  (s, m) of (s1, k) \<Rightarrow> (s1\<lparr>nextParticle := nt\<rparr>, k))"
  using assms
proof (induction ds arbitrary: s m)
  case Nil
  then show ?case by simp
next
  case (Cons d ds)
  obtain s2 k where sc: "scan_cell e i (cx + d) cy s = (s2, k)" by (cases "scan_cell e i (cx + d) cy s")
  have "gridHead s2 = gridHead s" "nextParticle s2 = nextParticle s"
    using scan_cell_grid[of e i "cx + d" cy s] sc by simp_all
  then have la2: "links_agree e (gridHead s2) (nextParticle s2) nt" using Cons.prems by simp
  have "scan_cell e i (cx + d) cy (s\<lparr>nextParticle := nt\<rparr>) = (s2\<lparr>nextParticle := nt\<rparr>, k)"
    using scan_cell_next[OF Cons.prems, of i "cx + d" cy] sc by simp
  then show ?case
    using Cons.IH[OF la2, of "m + k"] sc by simp
qed

lemma row_grid:
  "gridHead (fst (fold (\<lambda>dx (s1, n). case scan_cell e i (cx + dx) cy s1 of (s2, k) \<Rightarrow> (s2, n + k)) ds (s, m))) = gridHead s
   \<and> nextParticle (fst (fold (\<lambda>dx (s1, n). case scan_cell e i (cx + dx) cy s1 of (s2, k) \<Rightarrow> (s2, n + k)) ds (s, m))) = nextParticle s"
  by (rule row_preserves[of "\<lambda>t. gridHead t = gridHead s \<and> nextParticle t = nextParticle s"])
    simp_all

lemma rows_next:
  assumes "links_agree e (gridHead s) (nextParticle s) nt"
  shows "fold (\<lambda>dy. fold (\<lambda>dx (s1, n). case scan_cell e i (cx + dx) (cy + dy) s1 of
                                       (s2, k) \<Rightarrow> (s2, n + k)) ds) es (s\<lparr>nextParticle := nt\<rparr>, m)
         = (case fold (\<lambda>dy. fold (\<lambda>dx (s1, n). case scan_cell e i (cx + dx) (cy + dy) s1 of
                                       (s2, k) \<Rightarrow> (s2, n + k)) ds) es (s, m)
            of (s1, k) \<Rightarrow> (s1\<lparr>nextParticle := nt\<rparr>, k))"
  using assms
proof (induction es arbitrary: s m)
  case Nil
  then show ?case by simp
next
  case (Cons d es)
  obtain s2 k where r: "fold (\<lambda>dx (s1, n). case scan_cell e i (cx + dx) (cy + d) s1 of (s2, k) \<Rightarrow> (s2, n + k)) ds (s, m) = (s2, k)"
    by (cases "fold (\<lambda>dx (s1, n). case scan_cell e i (cx + dx) (cy + d) s1 of (s2, k) \<Rightarrow> (s2, n + k)) ds (s, m)")
  have "gridHead s2 = gridHead s" "nextParticle s2 = nextParticle s"
    using row_grid[of e i cx "cy + d" ds s m] r by simp_all
  then have la2: "links_agree e (gridHead s2) (nextParticle s2) nt" using Cons.prems by simp
  have "fold (\<lambda>dx (s1, n). case scan_cell e i (cx + dx) (cy + d) s1 of (s2, k) \<Rightarrow> (s2, n + k)) ds
          (s\<lparr>nextParticle := nt\<rparr>, m) = (s2\<lparr>nextParticle := nt\<rparr>, k)"
    using row_next[OF Cons.prems, of i cx "cy + d" ds m] r by simp
  then show ?case
    using Cons.IH[OF la2, of k] r by simp
qed

lemma pass2_particle_next:
  assumes "links_agree e (gridHead s) (nextParticle s) nt"
  shows "pass2_particle e i (s\<lparr>nextParticle := nt\<rparr>) = (pass2_particle e i s)\<lparr>nextParticle := nt\<rparr>"
proof -
  have c: "cell_x (s\<lparr>nextParticle := nt\<rparr>) i = cell_x s i" "cell_y (s\<lparr>nextParticle := nt\<rparr>) i = cell_y s i"
    by (simp_all add: cell_x_def cell_y_def)
  obtain s2 k where r: "neighbourhood e i (cell_x s i) (cell_y s i) s = (s2, k)"
    by (cases "neighbourhood e i (cell_x s i) (cell_y s i) s")
  have "neighbourhood e i (cell_x s i) (cell_y s i) (s\<lparr>nextParticle := nt\<rparr>)
      = (s2\<lparr>nextParticle := nt\<rparr>, k)"
    using r unfolding neighbourhood_def rows_next[OF assms] by (simp only: prod.case)
  then show ?thesis
    unfolding pass2_particle_def c r by (simp only: fst_conv)
qed

lemma pass2_particle_grid:
  "gridHead (pass2_particle e i s) = gridHead s \<and> nextParticle (pass2_particle e i s) = nextParticle s"
  by (rule pass2_particle_preserves[of "\<lambda>t. gridHead t = gridHead s \<and> nextParticle t = nextParticle s"])
    simp_all

lemma pass2_next:
  assumes "links_agree e (gridHead s) (nextParticle s) nt"
  shows "pass2 e (s\<lparr>nextParticle := nt\<rparr>) = (pass2 e s)\<lparr>nextParticle := nt\<rparr>"
proof -
  have "fold (pass2_particle e) is (s\<lparr>nextParticle := nt\<rparr>)
          = (fold (pass2_particle e) is s)\<lparr>nextParticle := nt\<rparr>" for "is"
    using assms
  proof (induction "is" arbitrary: s)
    case Nil
    then show ?case by simp
  next
    case (Cons i "is")
    have "links_agree e (gridHead (pass2_particle e i s)) (nextParticle (pass2_particle e i s)) nt"
      using Cons.prems pass2_particle_grid[of e i s] by simp
    then show ?case
      using Cons.IH[of "pass2_particle e i s"] pass2_particle_next[OF Cons.prems, of i] by simp
  qed
  then show ?thesis by (simp add: pass2_def)
qed

lemma grid_reset_next:
  assumes "well_sized e s" and "well_sized e t"
    and "px t = px s" and "py t = py s" and "pvx t = pvx s" and "pvy t = pvy s"
    and "pradius t = pradius s"
  shows "grid_reset t = (grid_reset s)\<lparr>nextParticle := nextParticle t\<rparr>"
proof -
  have "int (length (gridHead t)) = int (length (gridHead s))"
    using assms(1,2) by (simp add: well_sized_def)
  then have "map (\<lambda>_. - 1 :: int) (gridHead t) = map (\<lambda>_. - 1) (gridHead s)"
    by (simp add: map_replicate_const)
  then show ?thesis using assms(3-7) by (simp add: grid_reset_def)
qed

lemma pass1_links_agree:
  assumes ws: "well_sized e s" and wt: "well_sized e t"
    and s1: "s1 = pass1 e hands rnd (grid_reset s)"
    and t1: "pass1 e hands rnd (grid_reset t) = s1\<lparr>nextParticle := nt\<rparr>"
  shows "links_agree e (gridHead s1) (nextParticle s1) nt"
proof -
  define n where "n = particleCount e"
  have lens: "length (nextParticle (grid_reset s)) = n"
    "int (length (gridHead (grid_reset s))) = gridW e * gridH e"
    using ws by (simp_all add: well_sized_def grid_reset_def n_def)
  have lent: "length (nextParticle (grid_reset t)) = n"
    "int (length (gridHead (grid_reset t))) = gridW e * gridH e"
    using wt by (simp_all add: well_sized_def grid_reset_def n_def)
  note inv_s = grid_fold_invariant[OF lens grid_reset_empty order_refl, of hands rnd,
      unfolded n_def, folded pass1_def, folded s1, folded n_def]
  note inv_t = grid_fold_invariant[OF lent grid_reset_empty order_refl, of hands rnd,
      unfolded n_def, folded pass1_def, unfolded t1, folded n_def]
  have gh: "int (length (gridHead s1)) = gridW e * gridH e" "length (gridHead s1) = length (gridHead (grid_reset s))"
    using inv_s lens(2) by simp_all
  have gt: "length (gridHead (grid_reset t)) = length (gridHead (grid_reset s))"
    using lens(2) lent(2) by simp
  have mem: "members e (s1\<lparr>nextParticle := nt\<rparr>) n c = members e s1 n c" for c
    by (rule members_cong) simp
  have a: "chain (nextParticle s1) f (gridHead s1 ! nat c) = members e s1 n c"
    if "0 \<le> c" "c < int (length (gridHead s1))" "n \<le> f" for c f
    using inv_s that gh(2) by simp
  have b: "chain nt f (gridHead s1 ! nat c) = members e s1 n c"
    if "0 \<le> c" "c < int (length (gridHead s1))" "n \<le> f" for c f
    using inv_t that gh(2) gt mem by simp
  have c: "0 \<le> x \<and> x < int (length (nextParticle s1))"
    if "x \<in> set (members e s1 n c)" for x c
    using that inv_s members_less[of x e s1 n c] by (auto simp: members_def)
  have ln: "length nt = length (nextParticle s1)" using inv_s inv_t by simp
  show ?thesis
    unfolding links_agree_def n_def[symmetric]
    using a b c ln gh(1) by (metis order_refl)
qed

text \<open>
  C10. When the positions of all particles are finite at the start of a tick, the
  particle arrays at the end of the tick are determined by the particle arrays at its
  start, the hands and the environment: two ticks that start from the same particle
  arrays end with the same particle arrays, whatever the random sources and whatever
  earlier ticks left in the grid arrays. The radii are never written.
\<close>

theorem tick_deterministic:
  assumes "well_sized e s" and "well_sized e t"
    and "px t = px s" and "py t = py s" and "pvx t = pvx s" and "pvy t = pvy s"
    and "pradius t = pradius s"
    and "finite_positions (particleCount e) s"
  shows "px (tick e hands rnd' t) = px (tick e hands rnd s)
       \<and> py (tick e hands rnd' t) = py (tick e hands rnd s)
       \<and> pvx (tick e hands rnd' t) = pvx (tick e hands rnd s)
       \<and> pvy (tick e hands rnd' t) = pvy (tick e hands rnd s)
       \<and> pradius (tick e hands rnd' t) = pradius (tick e hands rnd s)
       \<and> pradius (tick e hands rnd s) = pradius s"
proof -
  define s1 where "s1 = pass1 e hands rnd (grid_reset s)"
  have r: "grid_reset t = (grid_reset s)\<lparr>nextParticle := nextParticle t\<rparr>"
    by (rule grid_reset_next[OF assms(1-7)])
  have "finite_positions (particleCount e) t"
    using assms(3,4,8) by (simp add: finite_positions_def)
  then have "\<forall>i<particleCount e. isFinite (rd (px (grid_reset t)) (int i))
      \<and> isFinite (rd (py (grid_reset t)) (int i))"
    by (simp add: finite_positions_iff grid_reset_def)
  then have "pass1 e hands rnd' (grid_reset t) = pass1 e hands rnd (grid_reset t)"
    using pass1_fold_no_random[OF _ order_refl, of "particleCount e" "grid_reset t" e hands rnd' rnd]
    by (simp add: pass1_def)
  moreover obtain nt where "pass1 e hands rnd (grid_reset t) = s1\<lparr>nextParticle := nt\<rparr>"
    unfolding r s1_def using pass1_next by blast
  ultimately have t1: "pass1 e hands rnd' (grid_reset t) = s1\<lparr>nextParticle := nt\<rparr>"
    and t1': "pass1 e hands rnd (grid_reset t) = s1\<lparr>nextParticle := nt\<rparr>"
    by simp_all
  have la: "links_agree e (gridHead s1) (nextParticle s1) nt"
    by (rule pass1_links_agree[OF assms(1,2) s1_def t1'])
  have "tick e hands rnd' t = (tick e hands rnd s)\<lparr>nextParticle := nt\<rparr>"
    unfolding tick_def t1 s1_def[symmetric] by (rule pass2_next[OF la])
  then show ?thesis by (simp add: tick_radius)
qed

theorem tick_deterministic_witness:
  "well_sized e_one s_fall \<and> well_sized e_one s_fall_stale
   \<and> px s_fall_stale = px s_fall \<and> py s_fall_stale = py s_fall
   \<and> pvx s_fall_stale = pvx s_fall \<and> pvy s_fall_stale = pvy s_fall
   \<and> pradius s_fall_stale = pradius s_fall
   \<and> finite_positions (particleCount e_one) s_fall
   \<and> gridHead s_fall_stale \<noteq> gridHead s_fall
   \<and> px (tick e_one [] (\<lambda>_. 1 / 4) s_fall_stale) = px (tick e_one [] (\<lambda>_. 1 / 2) s_fall)
   \<and> py (tick e_one [] (\<lambda>_. 1 / 4) s_fall_stale) = py (tick e_one [] (\<lambda>_. 1 / 2) s_fall)
   \<and> pvx (tick e_one [] (\<lambda>_. 1 / 4) s_fall_stale) = pvx (tick e_one [] (\<lambda>_. 1 / 2) s_fall)
   \<and> pvy (tick e_one [] (\<lambda>_. 1 / 4) s_fall_stale) = pvy (tick e_one [] (\<lambda>_. 1 / 2) s_fall)
   \<and> pradius (tick e_one [] (\<lambda>_. 1 / 2) s_fall) = pradius s_fall"
proof -
  have h: "well_sized e_one s_fall" "well_sized e_one s_fall_stale"
    "px s_fall_stale = px s_fall" "py s_fall_stale = py s_fall"
    "pvx s_fall_stale = pvx s_fall" "pvy s_fall_stale = pvy s_fall"
    "pradius s_fall_stale = pradius s_fall"
    "finite_positions (particleCount e_one) s_fall"
    by (simp_all add: well_sized_def e_one_def s_fall_stale_def s_fall_def finite_positions_def rd_def)
  have d: "gridHead s_fall_stale \<noteq> gridHead s_fall"
    by (simp add: s_fall_stale_def s_fall_def)
  show ?thesis
    using h d tick_deterministic[OF h, of "[]" "\<lambda>_. 1 / 4" "\<lambda>_. 1 / 2"] by blast
qed


end
